theory Spec2Isabelle
  imports Main "HOL-Library.Char_ord" "HOL-Library.List_Lexorder"
begin

section \<open>centralTerminal.js: a shallow embedding\<close>

text \<open>
  The source is one JavaScript module: the classes \<^verbatim>\<open>VFile\<close>, \<^verbatim>\<open>VDirectory\<close>,
  \<^verbatim>\<open>Terminal\<close>, \<^verbatim>\<open>Command\<close>, \<^verbatim>\<open>TerminalLib\<close>, \<^verbatim>\<open>VirtualOS\<close>, \<^verbatim>\<open>Addon\<close> and
  \<^verbatim>\<open>AddonExecutor\<close>. Every method becomes a function that takes the objects it reads and
  returns the objects it has written. A leading underscore of a method name is dropped
  (\<^verbatim>\<open>_resolvePath\<close> is \<open>resolvePath\<close>). Strings are \<^typ>\<open>string\<close>, one \<^typ>\<open>char\<close> per
  character; input and names are taken to be ASCII, and white space and letter case are
  those of ASCII.
\<close>

subsection \<open>String primitives of the host language\<close>

text \<open>\<^verbatim>\<open>String.prototype.trim\<close> and the regular expression class \<^verbatim>\<open>\s\<close>, on ASCII.\<close>

definition isSpace :: "char \<Rightarrow> bool" where
  "isSpace c = (c \<in> set [CHR 0x09, CHR 0x0A, CHR 0x0B, CHR 0x0C, CHR 0x0D, CHR 0x20])"

definition trim :: "string \<Rightarrow> string" where
  "trim s = rev (dropWhile isSpace (rev (dropWhile isSpace s)))"

definition startsWith :: "string \<Rightarrow> string \<Rightarrow> bool" where
  "startsWith s p = (take (length p) s = p)"

definition lowerChar :: "char \<Rightarrow> char" where
  "lowerChar c =
     (case map_of (zip ''ABCDEFGHIJKLMNOPQRSTUVWXYZ'' ''abcdefghijklmnopqrstuvwxyz'') c of
        Some l \<Rightarrow> l
      | None \<Rightarrow> c)"

definition toLowerCase :: "string \<Rightarrow> string" where
  "toLowerCase s = map lowerChar s"

text \<open>\<^verbatim>\<open>s.split(sep)\<close> for a one-character separator: never the empty list.\<close>

fun split :: "char \<Rightarrow> string \<Rightarrow> string list" where
  "split sep [] = [[]]"
| "split sep (c # cs) =
     (if c = sep then [] # split sep cs
      else (case split sep cs of [] \<Rightarrow> [[c]] | w # ws \<Rightarrow> (c # w) # ws))"

text \<open>\<^verbatim>\<open>parts.join(sep)\<close>.\<close>

fun join :: "string \<Rightarrow> string list \<Rightarrow> string" where
  "join sep [] = []"
| "join sep [x] = x"
| "join sep (x # y # ys) = x @ sep @ join sep (y # ys)"

text \<open>\<^verbatim>\<open>a || b\<close> on strings: the empty string is falsy.\<close>

definition orElse :: "string \<Rightarrow> string \<Rightarrow> string" where
  "orElse a b = (if a = [] then b else a)"

subsection \<open>Plain objects used as tables\<close>

text \<open>
  \<^verbatim>\<open>children\<close>, \<^verbatim>\<open>commands\<close> and \<^verbatim>\<open>addons\<close> are object literals \<^verbatim>\<open>{}\<close>, read with
  \<^verbatim>\<open>table[key]\<close>. Such a read finds the table's own entry and otherwise falls through to
  \<^verbatim>\<open>Object.prototype\<close>, whose properties are functions (and, under \<^verbatim>\<open>__proto__\<close>, the
  prototype object itself): all of them truthy, none of them an instance of a class of
  this module. The list is that of ECMAScript, Annex B included.
\<close>

definition objectPrototypeKeys :: "string list" where
  "objectPrototypeKeys =
     [''constructor'', ''hasOwnProperty'', ''isPrototypeOf'', ''propertyIsEnumerable'',
      ''toLocaleString'', ''toString'', ''valueOf'', ''__proto__'',
      ''__defineGetter__'', ''__defineSetter__'', ''__lookupGetter__'', ''__lookupSetter__'']"

text \<open>
  \<^verbatim>\<open>Object.keys\<close> and \<^verbatim>\<open>Object.values\<close> enumerate the own keys of a table in the host's
  order: first the keys that are array indices, by ascending value, then the other keys
  in the order of their creation. An array index is the decimal numeral, without sign or
  leading zero, of an integer from \<open>0\<close> to \<open>2^32 - 2\<close>.
\<close>

definition digitValue :: "char \<Rightarrow> int option" where
  "digitValue c = map_of (zip ''0123456789'' [0, 1, 2, 3, 4, 5, 6, 7, 8, 9]) c"

definition isDigit :: "char \<Rightarrow> bool" where
  "isDigit c = (digitValue c \<noteq> None)"

definition digitsValue :: "string \<Rightarrow> int" where
  "digitsValue ds = foldl (\<lambda>a d. 10 * a + (case digitValue d of Some v \<Rightarrow> v | None \<Rightarrow> 0)) 0 ds"

fun isArrayIndex :: "string \<Rightarrow> bool" where
  "isArrayIndex [] = False"
| "isArrayIndex (c # cs) =
     (list_all isDigit (c # cs) \<and>
      (if c = CHR ''0'' then cs = [] else digitsValue (c # cs) < 4294967295))"

text \<open>The entries that stay ahead of a new array index \<open>k\<close>: the smaller array indices.\<close>

definition indexBefore :: "string \<Rightarrow> string \<times> 'v \<Rightarrow> bool" where
  "indexBefore k kc = (isArrayIndex (fst kc) \<and> digitsValue (fst kc) < digitsValue k)"

subsection \<open>VFile and VDirectory\<close>

text \<open>
  A node is an object, and the source compares nodes by identity
  (\<^verbatim>\<open>node === this.root\<close>, \<^verbatim>\<open>child === target\<close>). Each node therefore carries the reference
  \<^verbatim>\<open>new\<close> gave it. \<^verbatim>\<open>children\<close> is kept in the order in which \<^verbatim>\<open>Object.keys\<close>
  and \<^verbatim>\<open>Object.values\<close> enumerate it. A directory owns its children: every node is created by
  \<^verbatim>\<open>new\<close> inside \<^verbatim>\<open>createFile\<close> or \<^verbatim>\<open>createDirectory\<close> and stored once, so the object graph
  below the root is a tree and is modelled as one.
\<close>

type_synonym ref = nat

datatype node =
    VFile ref string string string
  | VDirectory ref string "(string \<times> node) list"

fun ref :: "node \<Rightarrow> ref" where
  "ref (VFile r n c t) = r"
| "ref (VDirectory r n cs) = r"

fun name :: "node \<Rightarrow> string" where
  "name (VFile r n c t) = n"
| "name (VDirectory r n cs) = n"

fun children :: "node \<Rightarrow> (string \<times> node) list" where
  "children (VFile r n c t) = []"
| "children (VDirectory r n cs) = cs"

fun isVDirectory :: "node \<Rightarrow> bool" where
  "isVDirectory (VDirectory r n cs) = True"
| "isVDirectory (VFile r n c t) = False"

fun isVFile :: "node \<Rightarrow> bool" where
  "isVFile (VFile r n c t) = True"
| "isVFile (VDirectory r n cs) = False"

text \<open>
  What an expression of the file system evaluates to: \<^verbatim>\<open>null\<close> or \<^verbatim>\<open>undefined\<close>, a node,
  or the property of \<^verbatim>\<open>Object.prototype\<close> found under the given key.
\<close>

datatype jsval = Null | Node node | Inherited string

fun truthy :: "jsval \<Rightarrow> bool" where
  "truthy Null = False"
| "truthy (Node n) = True"
| "truthy (Inherited k) = True"

fun instanceofVDirectory :: "jsval \<Rightarrow> bool" where
  "instanceofVDirectory (Node n) = isVDirectory n"
| "instanceofVDirectory v = False"

fun instanceofVFile :: "jsval \<Rightarrow> bool" where
  "instanceofVFile (Node n) = isVFile n"
| "instanceofVFile v = False"

text \<open>\<^verbatim>\<open>getChild(name) { return this.children[name]; }\<close>\<close>

definition getChild :: "node \<Rightarrow> string \<Rightarrow> jsval" where
  "getChild d k =
     (case map_of (children d) k of
        Some c \<Rightarrow> Node c
      | None \<Rightarrow> if k \<in> set objectPrototypeKeys then Inherited k else Null)"

subsection \<open>VirtualOS\<close>

text \<open>
  \<^verbatim>\<open>this.root\<close> is the tree; \<^verbatim>\<open>this.cwd\<close> is a reference into it; \<^verbatim>\<open>nextRef\<close> is the
  allocator behind \<^verbatim>\<open>new\<close>.
\<close>

record VirtualOS =
  root :: node
  cwd :: ref
  nextRef :: ref

text \<open>
  The node a reference points to. Reading \<^verbatim>\<open>this.cwd\<close> follows the reference; the source
  never removes the directory it refers to, and a reference that the tree does not hold
  reads as \<^verbatim>\<open>null\<close>.
\<close>

fun lookupRef :: "node \<Rightarrow> ref \<Rightarrow> node option"
  and lookupRefIn :: "(string \<times> node) list \<Rightarrow> ref \<Rightarrow> node option" where
  "lookupRef (VFile r n c t) x = (if r = x then Some (VFile r n c t) else None)"
| "lookupRef (VDirectory r n cs) x =
     (if r = x then Some (VDirectory r n cs) else lookupRefIn cs x)"
| "lookupRefIn [] x = None"
| "lookupRefIn (kc # rest) x =
     (case lookupRef (snd kc) x of Some f \<Rightarrow> Some f | None \<Rightarrow> lookupRefIn rest x)"

definition thisCwd :: "VirtualOS \<Rightarrow> jsval" where
  "thisCwd s = (case lookupRef (root s) (cwd s) of Some d \<Rightarrow> Node d | None \<Rightarrow> Null)"

text \<open>
  \<^verbatim>\<open>findParent(dir, target)\<close>, the closure of \<^verbatim>\<open>_getParent\<close>: the loop over
  \<^verbatim>\<open>Object.values(dir.children)\<close> is \<open>findParentIn\<close>, which keeps \<open>dir\<close> to return it.
\<close>

fun findParent :: "node \<Rightarrow> ref \<Rightarrow> node option"
  and findParentIn :: "node \<Rightarrow> (string \<times> node) list \<Rightarrow> ref \<Rightarrow> node option" where
  "findParent (VFile r n c t) target = None"
| "findParent (VDirectory r n cs) target = findParentIn (VDirectory r n cs) cs target"
| "findParentIn dir [] target = None"
| "findParentIn dir (kc # rest) target =
     (if ref (snd kc) = target then Some dir
      else (case (if isVDirectory (snd kc) then findParent (snd kc) target else None) of
              Some found \<Rightarrow> Some found
            | None \<Rightarrow> findParentIn dir rest target))"

text \<open>
  \<^verbatim>\<open>_getParent(node)\<close>. A value that is no node is identical to no child, so the search
  ends with \<^verbatim>\<open>null\<close>.
\<close>

fun getParent :: "VirtualOS \<Rightarrow> jsval \<Rightarrow> node option" where
  "getParent s (Node n) =
     (if ref n = ref (root s) then None else findParent (root s) (ref n))"
| "getParent s v = None"

text \<open>
  The references of a tree in document order, the order in which \<open>findParent\<close> meets
  them, and the place where a reference stands first.
\<close>

fun refs :: "node \<Rightarrow> ref list"
  and refsIn :: "(string \<times> node) list \<Rightarrow> ref list" where
  "refs (VFile r n c t) = [r]"
| "refs (VDirectory r n cs) = r # refsIn cs"
| "refsIn [] = []"
| "refsIn (kc # rest) = refs (snd kc) @ refsIn rest"

definition firstIndex :: "ref list \<Rightarrow> ref \<Rightarrow> nat" where
  "firstIndex xs x = length (takeWhile (\<lambda>y. y \<noteq> x) xs)"

lemma firstIndex_Cons: "firstIndex (y # ys) x = (if y = x then 0 else Suc (firstIndex ys x))"
  by (simp add: firstIndex_def)

lemma firstIndex_append_in: "x \<in> set xs \<Longrightarrow> firstIndex (xs @ ys) x = firstIndex xs x"
  by (induction xs) (auto simp: firstIndex_def)

lemma firstIndex_append_notin:
  "x \<notin> set xs \<Longrightarrow> firstIndex (xs @ ys) x = length xs + firstIndex ys x"
  by (induction xs) (auto simp: firstIndex_def)

lemma firstIndex_append_le: "firstIndex (xs @ ys) x \<le> length xs + firstIndex ys x"
  by (induction xs) (auto simp: firstIndex_def)

lemma firstIndex_less_in: "firstIndex xs x < length xs \<longleftrightarrow> x \<in> set xs"
  by (induction xs) (auto simp: firstIndex_def)

lemma ref_in_refs: "ref n \<in> set (refs n)"
  by (cases n) simp_all

lemma refs_unfold: "refs n = ref n # refsIn (children n)"
  by (cases n) simp_all

lemma findParent_None:
  "findParent D t = None \<Longrightarrow> isVDirectory D \<Longrightarrow> t \<notin> set (refsIn (children D))"
  "findParentIn dir cs t = None \<Longrightarrow> t \<notin> set (refsIn cs)"
proof (induction D t and dir cs t rule: findParent_findParentIn.induct)
  case (4 dir kc rest target)
  then show ?case
    by (cases "snd kc") (auto split: if_splits option.splits)
qed auto

lemma findParent_Some:
  "findParent D t = Some d \<Longrightarrow>
     t \<in> set (refsIn (children D)) \<and>
     (d = D \<or> firstIndex (refsIn (children D)) (ref d) < firstIndex (refsIn (children D)) t)"
  "findParentIn dir cs t = Some d \<Longrightarrow>
     t \<in> set (refsIn cs) \<and>
     (d = dir \<or> firstIndex (refsIn cs) (ref d) < firstIndex (refsIn cs) t)"
proof (induction D t and dir cs t arbitrary: d and d rule: findParent_findParentIn.induct)
  case (1 r n c t target)
  then show ?case by simp
next
  case (2 r n cs target)
  then show ?case by simp
next
  case (3 dir target)
  then show ?case by simp
next
  case (4 dir kc rest target)
  define c where "c = snd kc"
  have unf: "refsIn (kc # rest) = refs c @ refsIn rest" by (simp add: c_def)
  show ?case
  proof (cases "ref c = target")
    case True
    with "4.prems" show ?thesis by (auto simp: ref_in_refs c_def)
  next
    case neq: False
    show ?thesis
    proof (cases "isVDirectory c \<and> findParent c target \<noteq> None")
      case True
      then obtain f where f: "findParent c target = Some f" by auto
      from "4.prems" neq True f have df: "d = f"
        by (simp add: c_def)
      from "4.IH"(1)[of f] neq True f
      have in_c: "target \<in> set (refsIn (children c))"
        and ord: "f = c \<or> firstIndex (refsIn (children c)) (ref f)
                    < firstIndex (refsIn (children c)) target"
        by (simp_all add: c_def)
      have t_in: "target \<in> set (refs c)" using in_c by (simp add: refs_unfold)
      have "firstIndex (refs c) target = Suc (firstIndex (refsIn (children c)) target)"
        using neq by (simp add: refs_unfold firstIndex_Cons)
      then have it: "firstIndex (refsIn (kc # rest)) target
                     = Suc (firstIndex (refsIn (children c)) target)"
        using t_in unfolding unf by (simp add: firstIndex_append_in)
      have "firstIndex (refsIn (kc # rest)) (ref f) < firstIndex (refsIn (kc # rest)) target"
      proof (cases "f = c")
        case True
        have "firstIndex (refs c) (ref c) = 0" by (simp add: refs_unfold firstIndex_Cons)
        then have "firstIndex (refsIn (kc # rest)) (ref f) = 0"
          using True unfolding unf by (simp add: firstIndex_append_in ref_in_refs)
        then show ?thesis using it by simp
      next
        case False
        with ord have lt: "firstIndex (refsIn (children c)) (ref f)
                           < firstIndex (refsIn (children c)) target" by simp
        have "firstIndex (refsIn (children c)) target < length (refsIn (children c))"
          using in_c by (simp add: firstIndex_less_in)
        with lt have "ref f \<in> set (refsIn (children c))"
          using firstIndex_less_in[of "refsIn (children c)" "ref f"] by simp
        then have "ref f \<in> set (refs c)" by (simp add: refs_unfold)
        then have "firstIndex (refsIn (kc # rest)) (ref f) = firstIndex (refs c) (ref f)"
          unfolding unf by (simp add: firstIndex_append_in)
        also have "\<dots> \<le> Suc (firstIndex (refsIn (children c)) (ref f))"
          by (simp add: refs_unfold firstIndex_Cons)
        finally show ?thesis using it lt by simp
      qed
      with df t_in show ?thesis unfolding unf by simp
    next
      case False
      then have none: "(if isVDirectory (snd kc) then findParent (snd kc) target else None) = None"
        by (auto simp: c_def)
      from "4.prems" neq none have rest: "findParentIn dir rest target = Some d"
        by (simp add: c_def)
      from "4.IH"(2)[OF _ none rest] neq
      have in_r: "target \<in> set (refsIn rest)"
        and ord: "d = dir \<or> firstIndex (refsIn rest) (ref d) < firstIndex (refsIn rest) target"
        by (simp_all add: c_def)
      have notin: "target \<notin> set (refs c)"
      proof (cases "isVDirectory c")
        case True
        with False have "findParent c target = None" by simp
        from findParent_None(1)[OF this True] neq show ?thesis by (simp add: refs_unfold)
      next
        case False
        then show ?thesis using neq by (cases c) simp_all
      qed
      have it: "firstIndex (refsIn (kc # rest)) target
                = length (refs c) + firstIndex (refsIn rest) target"
        using notin unfolding unf by (simp add: firstIndex_append_notin)
      have "firstIndex (refsIn (kc # rest)) (ref d)
            \<le> length (refs c) + firstIndex (refsIn rest) (ref d)"
        unfolding unf by (simp add: firstIndex_append_le)
      with ord it in_r show ?thesis unfolding unf by auto
    qed
  qed
qed

text \<open>
  \<^verbatim>\<open>_getFullPath\<close>: the loop \<^verbatim>\<open>while (current && current !== this.root)\<close>, with
  \<^verbatim>\<open>current\<close> either \<^verbatim>\<open>null\<close> or a node. Each round moves to a node that stands earlier in
  document order, so the loop ends on every tree.
\<close>

function fullPathLoop :: "VirtualOS \<Rightarrow> node option \<Rightarrow> string \<Rightarrow> string" where
  "fullPathLoop s None path = path"
| "fullPathLoop s (Some current) path =
     (if ref current \<noteq> ref (root s)
      then fullPathLoop s (getParent s (Node current)) (''/'' @ name current @ path)
      else path)"
  by pat_completeness auto
termination
proof (relation "measure (\<lambda>(s, current, path).
         case current of None \<Rightarrow> 0 | Some c \<Rightarrow> Suc (firstIndex (refs (root s)) (ref c)))")
  show "wf (measure (\<lambda>(s, current, path).
         case current of None \<Rightarrow> 0 | Some c \<Rightarrow> Suc (firstIndex (refs (root s)) (ref c))))"
    by simp
next
  fix s :: VirtualOS and current :: node and path :: string
  assume neq: "ref current \<noteq> ref (root s)"
  show "((s, getParent s (Node current), ''/'' @ name current @ path), s, Some current, path)
        \<in> measure (\<lambda>(s, current, path).
             case current of None \<Rightarrow> 0 | Some c \<Rightarrow> Suc (firstIndex (refs (root s)) (ref c)))"
  proof (cases "findParent (root s) (ref current)")
    case None
    with neq show ?thesis by simp
  next
    case (Some d)
    from findParent_Some(1)[OF Some]
    have inr: "ref current \<in> set (refsIn (children (root s)))"
      and ord: "d = root s \<or> firstIndex (refsIn (children (root s))) (ref d)
                 < firstIndex (refsIn (children (root s))) (ref current)"
      by simp_all
    have cur: "firstIndex (refs (root s)) (ref current)
               = Suc (firstIndex (refsIn (children (root s))) (ref current))"
      using neq by (simp add: refs_unfold[of "root s"] firstIndex_Cons)
    have "firstIndex (refs (root s)) (ref d) < firstIndex (refs (root s)) (ref current)"
    proof (cases "d = root s")
      case True
      then show ?thesis using cur by (simp add: refs_unfold[of "root s"] firstIndex_Cons)
    next
      case False
      with ord have "firstIndex (refsIn (children (root s))) (ref d)
                     < firstIndex (refsIn (children (root s))) (ref current)" by simp
      moreover have "firstIndex (refs (root s)) (ref d)
                     \<le> Suc (firstIndex (refsIn (children (root s))) (ref d))"
        by (simp add: refs_unfold[of "root s"] firstIndex_Cons)
      ultimately show ?thesis using cur by simp
    qed
    with Some neq show ?thesis by simp
  qed
qed

declare fullPathLoop.simps [simp del]

definition getFullPath :: "VirtualOS \<Rightarrow> node \<Rightarrow> string" where
  "getFullPath s directory =
     (if ref directory = ref (root s) then ''/''
      else orElse (fullPathLoop s (Some directory) '''') ''/'')"

text \<open>
  \<^verbatim>\<open>_resolvePath\<close>: \<open>walk\<close> is the loop \<^verbatim>\<open>for (let part of parts)\<close> with the variable
  \<^verbatim>\<open>current\<close>; \<^verbatim>\<open>return null\<close> leaves it at once.
\<close>

fun walk :: "VirtualOS \<Rightarrow> string list \<Rightarrow> jsval \<Rightarrow> jsval" where
  "walk s [] current = current"
| "walk s (part # parts) current =
     (if part = ''..'' then
        walk s parts (case getParent s current of Some p \<Rightarrow> Node p | None \<Rightarrow> current)
      else if part \<noteq> ''.'' then
        (case current of
           Node d \<Rightarrow>
             if isVDirectory d \<and> truthy (getChild d part)
             then walk s parts (getChild d part)
             else Null
         | _ \<Rightarrow> Null)
      else walk s parts current)"

definition segments :: "string \<Rightarrow> string list" where
  "segments path = filter (\<lambda>p. length p > 0) (split CHR ''/'' path)"

definition resolvePath :: "VirtualOS \<Rightarrow> string \<Rightarrow> jsval" where
  "resolvePath s path =
     (if path = ''/'' then Node (root s)
      else walk s (segments path)
             (if startsWith path ''/'' then Node (root s) else thisCwd s))"

text \<open>
  Writing to a table and to the directory object with reference \<open>r\<close>. A table is the list
  of its entries in the host's order of enumeration. \<^verbatim>\<open>table[k] = v\<close> replaces the value of
  a key that is there, where it is; a new key that is an array index goes behind the
  smaller array indices, any other new key to the end. \<^verbatim>\<open>delete table[k]\<close> removes the
  entry.
\<close>

definition assign :: "string \<Rightarrow> 'v \<Rightarrow> (string \<times> 'v) list \<Rightarrow> (string \<times> 'v) list" where
  "assign k v cs =
     (if k \<in> fst ` set cs then map (\<lambda>kc. if fst kc = k then (k, v) else kc) cs
      else if isArrayIndex k
        then takeWhile (indexBefore k) cs @ (k, v) # dropWhile (indexBefore k) cs
      else cs @ [(k, v)])"

definition deleteKey :: "string \<Rightarrow> (string \<times> 'v) list \<Rightarrow> (string \<times> 'v) list" where
  "deleteKey k cs = filter (\<lambda>kc. fst kc \<noteq> k) cs"

fun updateAt :: "ref \<Rightarrow> ((string \<times> node) list \<Rightarrow> (string \<times> node) list) \<Rightarrow> node \<Rightarrow> node"
  and updateAtIn :: "ref \<Rightarrow> ((string \<times> node) list \<Rightarrow> (string \<times> node) list) \<Rightarrow>
        (string \<times> node) list \<Rightarrow> (string \<times> node) list" where
  "updateAt r f (VFile r' n c t) = VFile r' n c t"
| "updateAt r f (VDirectory r' n cs) =
     (if r' = r then VDirectory r' n (f cs) else VDirectory r' n (updateAtIn r f cs))"
| "updateAtIn r f [] = []"
| "updateAtIn r f (kc # rest) = (fst kc, updateAt r f (snd kc)) # updateAtIn r f rest"

text \<open>
  \<^verbatim>\<open>createFile(path, content = '', type = 'text')\<close>; the caller of the model passes the
  defaults. \<^verbatim>\<open>parts.pop()\<close> is \<open>last\<close> and leaves \<open>butlast\<close>; \<open>split\<close> never returns
  the empty list.
\<close>

definition createFile :: "VirtualOS \<Rightarrow> string \<Rightarrow> string \<Rightarrow> string \<Rightarrow> bool \<times> VirtualOS" where
  "createFile s path content type =
     (let parts = split CHR ''/'' path;
          filename = last parts;
          dirPath = orElse (join ''/'' (butlast parts)) ''/''
      in case resolvePath s dirPath of
           Node directory \<Rightarrow>
             if isVDirectory directory \<and> \<not> truthy (getChild directory filename)
             then (True, s\<lparr>root := updateAt (ref directory)
                                     (assign filename (VFile (nextRef s) filename content type))
                                     (root s),
                           nextRef := Suc (nextRef s)\<rparr>)
             else (False, s)
         | _ \<Rightarrow> (False, s))"

definition deleteFile :: "VirtualOS \<Rightarrow> string \<Rightarrow> bool \<times> VirtualOS" where
  "deleteFile s path =
     (let parts = split CHR ''/'' path;
          filename = last parts;
          dirPath = orElse (join ''/'' (butlast parts)) ''/''
      in case resolvePath s dirPath of
           Node directory \<Rightarrow>
             if isVDirectory directory \<and> instanceofVFile (getChild directory filename)
             then (True, s\<lparr>root := updateAt (ref directory) (deleteKey filename) (root s)\<rparr>)
             else (False, s)
         | _ \<Rightarrow> (False, s))"

definition createDirectory :: "VirtualOS \<Rightarrow> string \<Rightarrow> bool \<times> VirtualOS" where
  "createDirectory s path =
     (let parts = split CHR ''/'' path;
          dirname = orElse (last parts) path;
          parentPath = orElse (join ''/'' (butlast parts)) ''/''
      in case resolvePath s parentPath of
           Node parentDir \<Rightarrow>
             if isVDirectory parentDir \<and> \<not> truthy (getChild parentDir dirname)
             then (True, s\<lparr>root := updateAt (ref parentDir)
                                     (assign dirname (VDirectory (nextRef s) dirname []))
                                     (root s),
                           nextRef := Suc (nextRef s)\<rparr>)
             else (False, s)
         | _ \<Rightarrow> (False, s))"

definition listFiles :: "VirtualOS \<Rightarrow> string \<Rightarrow> string list" where
  "listFiles s path =
     (case resolvePath s path of
        Node directory \<Rightarrow>
          if isVDirectory directory
          then map (\<lambda>key. if instanceofVDirectory (getChild directory key) then key @ ''/'' else key)
                 (map fst (children directory))
          else []
      | _ \<Rightarrow> [])"

definition changeDir :: "VirtualOS \<Rightarrow> string \<Rightarrow> bool \<times> VirtualOS" where
  "changeDir s path =
     (case resolvePath s path of
        Node newDir \<Rightarrow> if isVDirectory newDir then (True, s\<lparr>cwd := ref newDir\<rparr>) else (False, s)
      | _ \<Rightarrow> (False, s))"

text \<open>The constructor and \<^verbatim>\<open>_initializeFileSystem\<close>; the results of the calls are dropped.\<close>

definition initializeFileSystem :: "VirtualOS \<Rightarrow> VirtualOS" where
  "initializeFileSystem s0 =
     (let s1 = snd (createDirectory s0 ''/C'');
          s2 = snd (createDirectory s1 ''/C/Users'');
          s3 = snd (createDirectory s2 ''/C/Program Files'');
          s4 = snd (createDirectory s3 ''/D'')
      in snd (createFile s4 ''/readme.txt'' ''Welcome to the terminal!'' ''text''))"

definition newVirtualOS :: VirtualOS where
  "newVirtualOS =
     initializeFileSystem \<lparr>root = VDirectory 0 ''/'' [], cwd = 0, nextRef = 1\<rparr>"

subsection \<open>Terminal\<close>

text \<open>
  The output sink. \<^verbatim>\<open>print\<close> appends a \<^verbatim>\<open>p\<close> element to the container and the text to
  \<^verbatim>\<open>history\<close>; \<^verbatim>\<open>printHtml\<close> does the same with a \<^verbatim>\<open>div\<close>. The registry of UI components
  only looks elements of the page up and is left out.
\<close>

datatype element = P string | Div string

record Terminal =
  containerDiv :: "element list"
  history :: "string list"

definition print :: "Terminal \<Rightarrow> string \<Rightarrow> Terminal" where
  "print t text = t\<lparr>containerDiv := containerDiv t @ [P text], history := history t @ [text]\<rparr>"

definition printHtml :: "Terminal \<Rightarrow> string \<Rightarrow> Terminal" where
  "printHtml t html = t\<lparr>containerDiv := containerDiv t @ [Div html], history := history t @ [html]\<rparr>"

definition clear :: "Terminal \<Rightarrow> Terminal" where
  "clear t = t\<lparr>containerDiv := [], history := []\<rparr>"

fun printAll :: "Terminal \<Rightarrow> string list \<Rightarrow> Terminal" where
  "printAll t [] = t"
| "printAll t (l # ls) = printAll (print t l) ls"

subsection \<open>Exceptions\<close>

text \<open>
  A call either returns or throws, and what it wrote before it threw stays written: a
  result is the outcome together with the objects as the call left them.
\<close>

datatype error = TypeError

datatype outcome = Returned | Threw error

subsection \<open>Addon and AddonExecutor\<close>

text \<open>
  A session has one \<^verbatim>\<open>Terminal\<close> and one \<^verbatim>\<open>VirtualOS\<close>; a field that refers to one of them
  holds \<^verbatim>\<open>null\<close> (\<open>None\<close>) or that reference. \<^verbatim>\<open>Addon\<close> is the base class of the source:
  \<^verbatim>\<open>onStart\<close> stores the two references, \<^verbatim>\<open>onCommand\<close> prints, \<^verbatim>\<open>onStop\<close> does nothing.
\<close>

datatype termRef = TermRef

datatype vosRef = VOSRef

record Addon =
  addonName :: string
  addonTerm :: "termRef option"
  addonVOS :: "vosRef option"

definition onStart :: "Addon \<Rightarrow> Addon" where
  "onStart a = a\<lparr>addonTerm := Some TermRef, addonVOS := Some VOSRef\<rparr>"

definition onCommand :: "Addon \<Rightarrow> string \<Rightarrow> Terminal \<Rightarrow> outcome \<times> Terminal" where
  "onCommand a input t =
     (case addonTerm a of
        None \<Rightarrow> (Threw TypeError, t)
      | Some r \<Rightarrow> (Returned, print t (''['' @ addonName a @ '']> '' @ input)))"

definition onStop :: "Addon \<Rightarrow> Addon" where
  "onStop a = a"

text \<open>
  What \<^verbatim>\<open>this.addons[key]\<close> and \<^verbatim>\<open>this.activeAddon\<close> hold: nothing, an addon, or a property
  inherited from \<^verbatim>\<open>Object.prototype\<close>, which has none of the three hooks.
\<close>

datatype addonval = NoAddon | AnAddon Addon | InheritedProp string

text \<open>
  \<^verbatim>\<open>constructor() { this.addons={}; this.activeAddon=null; }\<close>. The table holds the addons
  that \<^verbatim>\<open>registerAddon\<close> stored under their lower-cased names. An addon object is written
  only by its own \<^verbatim>\<open>onStart\<close>, which \<^verbatim>\<open>startAddon\<close> calls on the entry it has just read, so
  the model writes the started addon to that entry and to \<^verbatim>\<open>activeAddon\<close>. \<^verbatim>\<open>stopAddon\<close>
  reads \<^verbatim>\<open>this.term\<close>, a property that neither the constructor nor any method of the
  class assigns: \<open>executorTerm\<close>, which \<open>newAddonExecutor\<close> leaves undefined.
\<close>

record AddonExecutor =
  addons :: "(string \<times> Addon) list"
  activeAddon :: addonval
  executorTerm :: "termRef option"

definition newAddonExecutor :: AddonExecutor where
  "newAddonExecutor = \<lparr>addons = [], activeAddon = NoAddon, executorTerm = None\<rparr>"

definition lookupAddon :: "AddonExecutor \<Rightarrow> string \<Rightarrow> addonval" where
  "lookupAddon ae key =
     (case map_of (addons ae) key of
        Some a \<Rightarrow> AnAddon a
      | None \<Rightarrow> if key \<in> set objectPrototypeKeys then InheritedProp key else NoAddon)"

definition startAddon :: "AddonExecutor \<Rightarrow> string \<Rightarrow> Terminal \<Rightarrow> outcome \<times> AddonExecutor \<times> Terminal" where
  "startAddon ae nm t =
     (if activeAddon ae \<noteq> NoAddon
      then (Returned, ae, print t ''An addon is already running. Please 'exit' first.'')
      else (case lookupAddon ae (toLowerCase nm) of
              AnAddon addon \<Rightarrow>
                (Returned,
                 ae\<lparr>activeAddon := AnAddon (onStart addon),
                    addons := assign (toLowerCase nm) (onStart addon) (addons ae)\<rparr>,
                 t)
            | InheritedProp k \<Rightarrow> (Threw TypeError, ae\<lparr>activeAddon := InheritedProp k\<rparr>, t)
            | NoAddon \<Rightarrow> (Returned, ae, print t (''Addon not found: '' @ nm))))"

definition stopAddon :: "AddonExecutor \<Rightarrow> Terminal \<Rightarrow> outcome \<times> AddonExecutor \<times> Terminal" where
  "stopAddon ae t =
     (case activeAddon ae of
        NoAddon \<Rightarrow> (Returned, ae, t)
      | InheritedProp k \<Rightarrow> (Threw TypeError, ae, t)
      | AnAddon a \<Rightarrow>
          (case executorTerm (ae\<lparr>activeAddon := NoAddon\<rparr>) of
             None \<Rightarrow> (Threw TypeError, ae\<lparr>activeAddon := NoAddon\<rparr>, t)
           | Some r \<Rightarrow> (Returned, ae\<lparr>activeAddon := NoAddon\<rparr>, print t ''Returned to main terminal.'')))"

definition handleCommand :: "AddonExecutor \<Rightarrow> string \<Rightarrow> Terminal \<Rightarrow> outcome \<times> AddonExecutor \<times> Terminal" where
  "handleCommand ae input t =
     (case activeAddon ae of
        NoAddon \<Rightarrow> (Returned, ae, t)
      | InheritedProp k \<Rightarrow> (Threw TypeError, ae, t)
      | AnAddon a \<Rightarrow> (fst (onCommand a input t), ae, snd (onCommand a input t)))"

subsection \<open>Input parsing\<close>

text \<open>
  \<^verbatim>\<open>parseInt(s, 10)\<close>: leading white space, an optional sign, then the longest run of
  decimal digits; \<^verbatim>\<open>NaN\<close> (\<open>None\<close>) when there is none. The host rounds a value beyond
  \<open>2^53\<close>; such a value is past the end of every array either way.
\<close>

definition parseInt :: "string \<Rightarrow> int option" where
  "parseInt s =
     (let t = dropWhile isSpace s;
          neg = (case t of [] \<Rightarrow> False | c # r \<Rightarrow> c = CHR ''-'');
          u = (case t of [] \<Rightarrow> [] | c # r \<Rightarrow> if c = CHR ''-'' \<or> c = CHR ''+'' then r else t);
          ds = takeWhile isDigit u
      in if ds = [] then None
         else Some (if neg then - digitsValue ds else digitsValue ds))"

text \<open>
  \<^verbatim>\<open>const idx = parseInt(input.substring(1), 10) - 1; const cmd = this.commandHistory[idx];\<close>
  followed by the test \<^verbatim>\<open>if (cmd)\<close>: the entry to replay, if there is one.
\<close>

definition recalled :: "string list \<Rightarrow> string \<Rightarrow> string option" where
  "recalled h input =
     (case parseInt (drop 1 input) of
        None \<Rightarrow> None
      | Some n \<Rightarrow>
          if 0 \<le> n - 1 \<and> n - 1 < int (length h) \<and> h ! nat (n - 1) \<noteq> []
          then Some (h ! nat (n - 1)) else None)"

text \<open>
  \<^verbatim>\<open>input.match(/(?:[^\s"]+|"[^"]*")+/g) || []\<close>. \<open>takeToken\<close> is the longest match of the
  group's repetition at the start of a string, with what follows it: a run of characters
  that are neither white space nor quotes, or a quoted stretch up to the next quote, over
  and over. \<open>matchAll\<close> collects the matches from left to right, moving one character on
  where nothing matches.
\<close>

lemma dropWhile_Cons_shorter: "dropWhile Q cs = q # after \<Longrightarrow> length after < Suc (length cs)"
proof -
  assume "dropWhile Q cs = q # after"
  moreover have "length (dropWhile Q cs) \<le> length cs" by (rule length_dropWhile_le)
  ultimately show ?thesis by simp
qed

function takeToken :: "string \<Rightarrow> string \<times> string" where
  "takeToken [] = ([], [])"
| "takeToken (c # cs) =
     (if c = CHR 0x22 then
        (case dropWhile (\<lambda>x. x \<noteq> CHR 0x22) cs of
           [] \<Rightarrow> ([], c # cs)
         | q # after \<Rightarrow>
             (c # takeWhile (\<lambda>x. x \<noteq> CHR 0x22) cs @ q # fst (takeToken after),
              snd (takeToken after)))
      else if isSpace c then ([], c # cs)
      else (c # fst (takeToken cs), snd (takeToken cs)))"
  by pat_completeness auto
termination
  by (relation "measure length") (auto dest: dropWhile_Cons_shorter)

lemma takeToken_length: "length (fst (takeToken s)) + length (snd (takeToken s)) = length s"
proof (induction s rule: takeToken.induct)
  case 1
  show ?case by simp
next
  case (2 c cs)
  show ?case
  proof (cases "c = CHR 0x22")
    case True
    show ?thesis
    proof (cases "dropWhile (\<lambda>x. x \<noteq> CHR 0x22) cs")
      case Nil
      with True show ?thesis by (simp add: Nil)
    next
      case (Cons q after)
      have "length (takeWhile (\<lambda>x. x \<noteq> CHR 0x22) cs) + length (dropWhile (\<lambda>x. x \<noteq> CHR 0x22) cs)
            = length cs"
        by (metis length_append takeWhile_dropWhile_id)
      then have split: "length (takeWhile (\<lambda>x. x \<noteq> CHR 0x22) cs) + Suc (length after) = length cs"
        by (simp add: Cons)
      have "length (fst (takeToken after)) + length (snd (takeToken after)) = length after"
        using "2.IH"(1)[OF True Cons] .
      with split show ?thesis using True by (simp add: Cons)
    qed
  next
    case False
    with "2.IH"(3) show ?thesis by (cases "isSpace c") simp_all
  qed
qed

lemma takeToken_rest_shorter:
  "fst (takeToken s) \<noteq> [] \<Longrightarrow> length (snd (takeToken s)) < length s"
  using takeToken_length[of s] by (cases "fst (takeToken s)") simp_all

function matchAll :: "string \<Rightarrow> string list" where
  "matchAll [] = []"
| "matchAll (c # cs) =
     (if fst (takeToken (c # cs)) = [] then matchAll cs
      else fst (takeToken (c # cs)) # matchAll (snd (takeToken (c # cs))))"
  by pat_completeness auto
termination
proof (relation "measure length")
  show "wf (measure length)" by simp
next
  fix c :: char and cs :: string
  show "(cs, c # cs) \<in> measure length" by simp
next
  fix c :: char and cs :: string
  assume "fst (takeToken (c # cs)) \<noteq> []"
  from takeToken_rest_shorter[OF this]
  show "(snd (takeToken (c # cs)), c # cs) \<in> measure length"
    by (simp del: takeToken.simps)
qed

text \<open>\<^verbatim>\<open>arg.replace(/"/g, '')\<close>\<close>

definition stripQuotes :: "string \<Rightarrow> string" where
  "stripQuotes s = filter (\<lambda>x. x \<noteq> CHR 0x22) s"

subsection \<open>Command and TerminalLib\<close>

text \<open>
  \<^verbatim>\<open>execute\<close> of a \<^verbatim>\<open>Command\<close> is a closure over the library; the model names the closure
  (\<open>handler\<close>) and defines what each one does in \<open>execute\<close> below. The table is the one
  \<^verbatim>\<open>_registerDefaultCommands\<close> builds.
\<close>

datatype handler =
  Pwd | Ls | Cd | Cat | Mkdir | Touch | Rm | Echo | History | Date | Tree | Clear | Help
  | Run | Exit

record Command =
  commandName :: string
  description :: string
  handlerOf :: handler
  aliases :: "string list"

definition addCommand :: "(string \<times> Command) list \<Rightarrow> Command \<Rightarrow> (string \<times> Command) list" where
  "addCommand t command =
     foldl (\<lambda>t' alias. assign alias command t') (assign (commandName command) command t)
       (aliases command)"

definition registerDefaultCommands :: "(string \<times> Command) list" where
  "registerDefaultCommands =
     foldl addCommand []
       [\<lparr>commandName = ''pwd'', description = ''Print current working directory'',
         handlerOf = Pwd, aliases = []\<rparr>,
        \<lparr>commandName = ''ls'', description = ''List files in current directory'',
         handlerOf = Ls, aliases = []\<rparr>,
        \<lparr>commandName = ''cd'', description = ''Change directory'',
         handlerOf = Cd, aliases = []\<rparr>,
        \<lparr>commandName = ''cat'', description = ''Display file contents'',
         handlerOf = Cat, aliases = []\<rparr>,
        \<lparr>commandName = ''mkdir'', description = ''Create a directory'',
         handlerOf = Mkdir, aliases = []\<rparr>,
        \<lparr>commandName = ''touch'', description = ''Create an empty file'',
         handlerOf = Touch, aliases = []\<rparr>,
        \<lparr>commandName = ''rm'', description = ''Delete a file'',
         handlerOf = Rm, aliases = []\<rparr>,
        \<lparr>commandName = ''echo'', description = ''Print text'',
         handlerOf = Echo, aliases = []\<rparr>,
        \<lparr>commandName = ''history'',
         description = ''Show command history. Use !<number> to rerun.'',
         handlerOf = History, aliases = []\<rparr>,
        \<lparr>commandName = ''date'', description = ''Displays the current date and time.'',
         handlerOf = Date, aliases = [''time'']\<rparr>,
        \<lparr>commandName = ''tree'', description = ''Display the directory structure as a tree.'',
         handlerOf = Tree, aliases = []\<rparr>,
        \<lparr>commandName = ''clear'', description = ''Clear terminal output'',
         handlerOf = Clear, aliases = []\<rparr>,
        \<lparr>commandName = ''help'', description = ''List available commands'',
         handlerOf = Help, aliases = []\<rparr>,
        \<lparr>commandName = ''run'', description = ''Run a registered addon'',
         handlerOf = Run, aliases = []\<rparr>,
        \<lparr>commandName = ''exit'', description = ''Exits the current addon.'',
         handlerOf = Exit, aliases = []\<rparr>]"

datatype commandval = NoCommand | ACommand Command | InheritedCommand string

definition lookupCommand :: "string \<Rightarrow> commandval" where
  "lookupCommand key =
     (case map_of registerDefaultCommands key of
        Some c \<Rightarrow> ACommand c
      | None \<Rightarrow> if key \<in> set objectPrototypeKeys then InheritedCommand key else NoCommand)"

text \<open>
  The library object: \<^verbatim>\<open>this.term\<close> is \<open>terminal\<close>, and \<open>dateNow\<close> is what
  \<^verbatim>\<open>new Date().toLocaleString()\<close> returns, which the host decides.
\<close>

record TerminalLib =
  terminal :: Terminal
  vOS :: VirtualOS
  addonExecutor :: AddonExecutor
  commandHistory :: "string list"
  dateNow :: string

definition newTerminalLib :: "Terminal \<Rightarrow> VirtualOS \<Rightarrow> AddonExecutor \<Rightarrow> string \<Rightarrow> TerminalLib" where
  "newTerminalLib terminalInstance v ae d =
     \<lparr>terminal = terminalInstance, vOS = v, addonExecutor = ae, commandHistory = [], dateNow = d\<rparr>"

definition say :: "TerminalLib \<Rightarrow> string \<Rightarrow> TerminalLib" where
  "say lib text = lib\<lparr>terminal := print (terminal lib) text\<rparr>"

definition sayAll :: "TerminalLib \<Rightarrow> string list \<Rightarrow> TerminalLib" where
  "sayAll lib ls = lib\<lparr>terminal := printAll (terminal lib) ls\<rparr>"

text \<open>\<^verbatim>\<open>args[0]\<close>, with \<open>None\<close> for \<^verbatim>\<open>undefined\<close>; \<^verbatim>\<open>args[0] || d\<close>; a template's rendering.\<close>

definition arg0 :: "string list \<Rightarrow> string option" where
  "arg0 args = (case args of [] \<Rightarrow> None | a # rest \<Rightarrow> Some a)"

definition arg0Or :: "string list \<Rightarrow> string \<Rightarrow> string" where
  "arg0Or args d = (case arg0 args of None \<Rightarrow> d | Some a \<Rightarrow> orElse a d)"

definition arg0Text :: "string list \<Rightarrow> string" where
  "arg0Text args = (case arg0 args of None \<Rightarrow> ''undefined'' | Some a \<Rightarrow> a)"

text \<open>Decimal digits of a number, for \<^verbatim>\<open>`${index + 1}: ${cmd}`\<close>.\<close>

fun showNat :: "nat \<Rightarrow> string" where
  "showNat n =
     (if n < 10 then [''0123456789'' ! n]
      else showNat (n div 10) @ [''0123456789'' ! (n mod 10)])"

declare showNat.simps [simp del]

fun numbered :: "nat \<Rightarrow> string list \<Rightarrow> string list" where
  "numbered index [] = []"
| "numbered index (cmd # rest) = (showNat (index + 1) @ '': '' @ cmd) # numbered (index + 1) rest"

text \<open>
  \<^verbatim>\<open>_printTreeRecursive\<close>, as the lines it prints in order. The three glyphs of the
  source are written as their UTF-8 bytes.
\<close>

definition tee :: string where
  "tee = [CHR 0xE2, CHR 0x94, CHR 0x9C, CHR 0xE2, CHR 0x94, CHR 0x80, CHR 0xE2, CHR 0x94, CHR 0x80, CHR 0x20]"

definition corner :: string where
  "corner = [CHR 0xE2, CHR 0x94, CHR 0x94, CHR 0xE2, CHR 0x94, CHR 0x80, CHR 0xE2, CHR 0x94, CHR 0x80, CHR 0x20]"

definition bar :: string where
  "bar = [CHR 0xE2, CHR 0x94, CHR 0x82, CHR 0x20, CHR 0x20, CHR 0x20]"

fun printTreeRecursive :: "node \<Rightarrow> string \<Rightarrow> string list"
  and printTreeChildren :: "(string \<times> node) list \<Rightarrow> string \<Rightarrow> string list" where
  "printTreeRecursive (VFile r n c t) prefix = []"
| "printTreeRecursive (VDirectory r n cs) prefix = printTreeChildren cs prefix"
| "printTreeChildren [] prefix = []"
| "printTreeChildren (kc # rest) prefix =
     (if isVDirectory (snd kc)
      then (prefix @ (if rest = [] then corner else tee) @ name (snd kc) @ ''/'')
           # printTreeRecursive (snd kc) (prefix @ (if rest = [] then ''    '' else bar))
           @ printTreeChildren rest prefix
      else (prefix @ (if rest = [] then corner else tee) @ name (snd kc))
           # printTreeChildren rest prefix)"

text \<open>
  The \<^verbatim>\<open>help\<close> text: the commands of the table without repetition, sorted by name, each
  name padded to fifteen columns. \<^verbatim>\<open>localeCompare\<close> orders the names of the table, which
  are lower-case ASCII words, as the lexicographic order does.
\<close>

definition padEnd :: "nat \<Rightarrow> string \<Rightarrow> string" where
  "padEnd n s = s @ replicate (n - length s) CHR '' ''"

definition helpText :: string where
  "helpText =
     join [CHR 0x0A]
       (map (\<lambda>c. padEnd 15 (commandName c) @ ''- '' @ description c)
          (sort_key commandName (remdups (map snd registerDefaultCommands))))"

definition liftAddon :: "TerminalLib \<Rightarrow> outcome \<times> AddonExecutor \<times> Terminal \<Rightarrow> outcome \<times> TerminalLib" where
  "liftAddon lib r = (fst r, lib\<lparr>addonExecutor := fst (snd r), terminal := snd (snd r)\<rparr>)"

text \<open>
  The \<^verbatim>\<open>cat\<close> closure from its second statement on, as a function of the value \<^verbatim>\<open>file\<close>
  that \<^verbatim>\<open>_resolvePath\<close> has returned.
\<close>

fun display :: "jsval \<Rightarrow> string list \<Rightarrow> TerminalLib \<Rightarrow> outcome \<times> TerminalLib" where
  "display (Node (VFile r n content type)) args lib =
     (if type = ''text'' then (Returned, sayAll lib (split (CHR 0x0A) content))
      else if type = ''image'' then
        (Returned, lib\<lparr>terminal := printHtml (terminal lib)
           (''<img src='' @ [CHR 0x22] @ content @ [CHR 0x22] @ '' alt='' @ [CHR 0x22] @ n
            @ [CHR 0x22] @ '' style='' @ [CHR 0x22] @ ''max-width: 100%; height: auto;''
            @ [CHR 0x22] @ ''>'')\<rparr>)
      else if type = ''audio'' then
        (Returned, lib\<lparr>terminal := printHtml (terminal lib)
           (''<audio controls src='' @ [CHR 0x22] @ content @ [CHR 0x22]
            @ ''>Your browser does not support audio playback.</audio>'')\<rparr>)
      else if type = ''exe'' then
        (Returned, say lib (''[Executable] To run this, type: run '' @ content))
      else (Returned, say lib (''Unsupported file type: '' @ type)))"
| "display file args lib = (Returned, say lib (''cat: No such file: '' @ arg0Text args))"

text \<open>The closures registered by \<^verbatim>\<open>_registerDefaultCommands\<close>, in its order.\<close>

fun execute :: "handler \<Rightarrow> string list \<Rightarrow> TerminalLib \<Rightarrow> outcome \<times> TerminalLib" where
  "execute Pwd args lib =
     (Returned, say lib (case thisCwd (vOS lib) of
                           Node d \<Rightarrow> getFullPath (vOS lib) d
                         | _ \<Rightarrow> ''/''))"
| "execute Ls args lib =
     (let files = listFiles (vOS lib) (arg0Or args ''.'')
      in (Returned, say lib (if length files > 0 then join [CHR 0x0A] files
                             else ''Empty directory.'')))"
| "execute Cd args lib =
     (if arg0Or args [] = [] then (Returned, say lib (''cd: no such file or directory: '' @ arg0Or args []))
      else if \<not> fst (changeDir (vOS lib) (arg0Or args []))
      then (Returned, say (lib\<lparr>vOS := snd (changeDir (vOS lib) (arg0Or args []))\<rparr>)
                       (''cd: no such file or directory: '' @ arg0Or args []))
      else (Returned, lib\<lparr>vOS := snd (changeDir (vOS lib) (arg0Or args []))\<rparr>))"
| "execute Cat args lib = display (resolvePath (vOS lib) (arg0Or args [])) args lib"
| "execute Mkdir args lib =
     (if arg0Or args [] = [] then (Returned, say lib (''mkdir: cannot create directory: '' @ arg0Or args []))
      else if \<not> fst (createDirectory (vOS lib) (arg0Or args []))
      then (Returned, say (lib\<lparr>vOS := snd (createDirectory (vOS lib) (arg0Or args []))\<rparr>)
                       (''mkdir: cannot create directory: '' @ arg0Or args []))
      else (Returned, lib\<lparr>vOS := snd (createDirectory (vOS lib) (arg0Or args []))\<rparr>))"
| "execute Touch args lib =
     (if arg0Or args [] = [] then (Returned, say lib ''Usage: touch <filename>'')
      else if \<not> fst (createFile (vOS lib) (arg0Or args []) [] ''text'')
      then (Returned, say (lib\<lparr>vOS := snd (createFile (vOS lib) (arg0Or args []) [] ''text'')\<rparr>)
                       (''touch: cannot create file: '' @ arg0Or args []))
      else (Returned, lib\<lparr>vOS := snd (createFile (vOS lib) (arg0Or args []) [] ''text'')\<rparr>))"
| "execute Rm args lib =
     (if arg0Or args [] = [] then (Returned, say lib ''Usage: rm <filename>'')
      else if \<not> fst (deleteFile (vOS lib) (arg0Or args []))
      then (Returned, say (lib\<lparr>vOS := snd (deleteFile (vOS lib) (arg0Or args []))\<rparr>)
                       (''rm: cannot remove '' @ [CHR 0x27] @ arg0Or args [] @ [CHR 0x27]
                        @ '': No such file or directory''))
      else (Returned, lib\<lparr>vOS := snd (deleteFile (vOS lib) (arg0Or args []))\<rparr>))"
| "execute Echo args lib = (Returned, say lib (join '' '' args))"
| "execute History args lib = (Returned, sayAll lib (numbered 0 (commandHistory lib)))"
| "execute Date args lib = (Returned, say lib (dateNow lib))"
| "execute Tree args lib =
     (case resolvePath (vOS lib) (arg0Or args ''.'') of
        Node (VDirectory r n cs) \<Rightarrow>
          (Returned, sayAll (say lib (getFullPath (vOS lib) (VDirectory r n cs)))
                       (printTreeRecursive (VDirectory r n cs) []))
      | _ \<Rightarrow> (Returned, say lib (''tree: '' @ [CHR 0x27] @ arg0Or args ''.'' @ [CHR 0x27]
                                 @ '' is not a directory.'')))"
| "execute Clear args lib = (Returned, lib\<lparr>terminal := clear (terminal lib)\<rparr>)"
| "execute Help args lib = (Returned, say lib helpText)"
| "execute Run args lib =
     (if arg0Or args [] = [] then (Returned, say lib ''Usage: run <addon-name>'')
      else liftAddon lib (startAddon (addonExecutor lib) (arg0Or args []) (terminal lib)))"
| "execute Exit args lib =
     (if activeAddon (addonExecutor lib) = NoAddon
      then (Returned, say lib ''No active addon to exit.'')
      else liftAddon lib (stopAddon (addonExecutor lib) (terminal lib)))"

text \<open>
  \<^verbatim>\<open>runCommand\<close> after the recall branch, for an input that is trimmed, not empty and
  does not start with \<^verbatim>\<open>!\<close>: the history entry, the active addon, the command.
\<close>

definition remember :: "TerminalLib \<Rightarrow> string \<Rightarrow> TerminalLib" where
  "remember lib input =
     (if commandHistory lib = [] \<or> last (commandHistory lib) \<noteq> input
      then lib\<lparr>commandHistory := commandHistory lib @ [input]\<rparr>
      else lib)"

definition route :: "TerminalLib \<Rightarrow> string \<Rightarrow> outcome \<times> TerminalLib" where
  "route lib input =
     (if activeAddon (addonExecutor lib) \<noteq> NoAddon then
        (if toLowerCase input = ''exit''
         then liftAddon lib (stopAddon (addonExecutor lib) (terminal lib))
         else liftAddon lib (handleCommand (addonExecutor lib) input (terminal lib)))
      else
        (case matchAll input of
           [] \<Rightarrow> (Returned, lib)
         | first # parts \<Rightarrow>
             if toLowerCase (stripQuotes first) = [] then (Returned, lib)
             else (case lookupCommand (toLowerCase (stripQuotes first)) of
                     ACommand command \<Rightarrow> execute (handlerOf command) (map stripQuotes parts) lib
                   | InheritedCommand k \<Rightarrow> (Threw TypeError, lib)
                   | NoCommand \<Rightarrow>
                       (Returned, say lib (''Command not recognized: ''
                                           @ toLowerCase (stripQuotes first) @ ''.'')))))"

text \<open>
  \<^verbatim>\<open>runCommand(input)\<close>. The recall branch calls \<^verbatim>\<open>runCommand\<close> again, and nothing in the
  function bounds that: a call that does not return has the value \<open>None\<close>.
\<close>

partial_function (option) runCommand :: "TerminalLib \<Rightarrow> string \<Rightarrow> (outcome \<times> TerminalLib) option" where
  "runCommand lib input =
     (if trim input = [] then Some (Returned, lib)
      else if startsWith (trim input) ''!'' then
        (case recalled (commandHistory lib) (trim input) of
           Some cmd \<Rightarrow> runCommand (say lib (''> '' @ cmd)) cmd
         | None \<Rightarrow> Some (Returned, say lib ''Invalid history index.''))
      else Some (route (remember lib (trim input)) (trim input)))"

section \<open>Notions for the properties\<close>

subsection \<open>Sessions and stored lines\<close>

text \<open>
  A session is a sequence of input lines, each given to \<^verbatim>\<open>runCommand\<close> on the library as
  the line before left it; an exception ends the handling of its line, not the session.
\<close>

fun runAll :: "TerminalLib \<Rightarrow> string list \<Rightarrow> TerminalLib option" where
  "runAll lib [] = Some lib"
| "runAll lib (input # inputs) =
     (case runCommand lib input of
        None \<Rightarrow> None
      | Some r \<Rightarrow> runAll (snd r) inputs)"

text \<open>What \<^verbatim>\<open>runCommand\<close> stores: a line that is trimmed, not empty, and no recall.\<close>

definition stored :: "string \<Rightarrow> bool" where
  "stored e = (e \<noteq> [] \<and> trim e = e \<and> \<not> startsWith e ''!'')"

subsection \<open>Well-formed file systems and normalized paths\<close>

text \<open>
  The shape every file system built by this module has. The references of the tree are
  pairwise different (each node is one object), every child is stored under its own
  name, and no key occurs twice in a directory.
\<close>

fun keyed :: "node \<Rightarrow> bool"
  and keyedIn :: "(string \<times> node) list \<Rightarrow> bool" where
  "keyed (VFile r n c t) = True"
| "keyed (VDirectory r n cs) = (distinct (map fst cs) \<and> keyedIn cs)"
| "keyedIn [] = True"
| "keyedIn (kc # rest) = (name (snd kc) = fst kc \<and> keyed (snd kc) \<and> keyedIn rest)"

definition wellFormed :: "VirtualOS \<Rightarrow> bool" where
  "wellFormed s = (distinct (refs (root s)) \<and> keyed (root s))"

text \<open>The node reached from a node by a list of child names.\<close>

fun descend :: "node \<Rightarrow> string list \<Rightarrow> node option" where
  "descend n [] = Some n"
| "descend n (k # ks) =
     (case map_of (children n) k of Some c \<Rightarrow> descend c ks | None \<Rightarrow> None)"

text \<open>
  Following the spec's words, the normalized absolute form of a path: \<^verbatim>\<open>/\<close> for the root,
  and otherwise the segment names from the root on, each after a \<^verbatim>\<open>/\<close>. A path without
  a leading \<^verbatim>\<open>/\<close> continues the names that lead from the root to the working directory,
  \<open>cwdSegments\<close>.
\<close>

fun pathTo :: "node \<Rightarrow> ref \<Rightarrow> string list option"
  and pathToIn :: "(string \<times> node) list \<Rightarrow> ref \<Rightarrow> string list option" where
  "pathTo (VFile r n c t) x = (if r = x then Some [] else None)"
| "pathTo (VDirectory r n cs) x = (if r = x then Some [] else pathToIn cs x)"
| "pathToIn [] x = None"
| "pathToIn (kc # rest) x =
     (case pathTo (snd kc) x of
        Some ps \<Rightarrow> Some (fst kc # ps)
      | None \<Rightarrow> pathToIn rest x)"

definition cwdSegments :: "VirtualOS \<Rightarrow> string list" where
  "cwdSegments s = (case pathTo (root s) (cwd s) of Some ps \<Rightarrow> ps | None \<Rightarrow> [])"

definition render :: "string list \<Rightarrow> string" where
  "render segs = (if segs = [] then ''/'' else concat (map (\<lambda>seg. ''/'' @ seg) segs))"

definition normalized :: "VirtualOS \<Rightarrow> string \<Rightarrow> string" where
  "normalized s p = render ((if startsWith p ''/'' then [] else cwdSegments s) @ segments p)"

text \<open>
  The four mutating operations of \<^verbatim>\<open>VirtualOS\<close>, and the file systems they lead to from
  the constructor's. \<open>sound\<close> adds to \<open>wellFormed\<close> what keeps it: the allocator is
  ahead of every reference in the tree, and \<^verbatim>\<open>this.cwd\<close> refers to a directory of the tree.
\<close>

datatype operation =
    CreateFile string string string
  | CreateDirectory string
  | DeleteFile string
  | ChangeDir string

fun perform :: "VirtualOS \<Rightarrow> operation \<Rightarrow> VirtualOS" where
  "perform s (CreateFile path content type) = snd (createFile s path content type)"
| "perform s (CreateDirectory path) = snd (createDirectory s path)"
| "perform s (DeleteFile path) = snd (deleteFile s path)"
| "perform s (ChangeDir path) = snd (changeDir s path)"

fun subtrees :: "node \<Rightarrow> node list"
  and subtreesIn :: "(string \<times> node) list \<Rightarrow> node list" where
  "subtrees (VFile r n c t) = [VFile r n c t]"
| "subtrees (VDirectory r n cs) = VDirectory r n cs # subtreesIn cs"
| "subtreesIn [] = []"
| "subtreesIn (kc # rest) = subtrees (snd kc) @ subtreesIn rest"

fun dirRefs :: "node \<Rightarrow> ref list"
  and dirRefsIn :: "(string \<times> node) list \<Rightarrow> ref list" where
  "dirRefs (VFile r n c t) = []"
| "dirRefs (VDirectory r n cs) = r # dirRefsIn cs"
| "dirRefsIn [] = []"
| "dirRefsIn (kc # rest) = dirRefs (snd kc) @ dirRefsIn rest"

definition sound :: "VirtualOS \<Rightarrow> bool" where
  "sound s = (wellFormed s \<and> list_all (\<lambda>r. r < nextRef s) (refs (root s)) \<and>
              cwd s \<in> set (dirRefs (root s)))"

text \<open>
  Writing the children of the directory with reference \<open>r\<close>. \<open>tidy\<close> says what the
  write \<open>f\<close> must do to the list it is applied to: keep references apart, keys unique and
  names equal to keys, add no reference but those of \<open>E\<close>, lose no directory.
\<close>

definition tidy :: "((string \<times> node) list \<Rightarrow> (string \<times> node) list) \<Rightarrow> ref set \<Rightarrow>
    (string \<times> node) list \<Rightarrow> bool" where
  "tidy f E cs =
     (distinct (refsIn (f cs)) \<and> distinct (map fst (f cs)) \<and> keyedIn (f cs) \<and>
      set (refsIn (f cs)) \<subseteq> set (refsIn cs) \<union> E \<and>
      set (dirRefsIn cs) \<subseteq> set (dirRefsIn (f cs)))"


section \<open>Sessions to run the model on\<close>

text \<open>
  A fresh terminal, the file system as its constructor leaves it, and an executor with
  one registered addon named \<^verbatim>\<open>Demo\<close>.
\<close>

definition demoAddon :: Addon where
  "demoAddon = \<lparr>addonName = ''Demo'', addonTerm = None, addonVOS = None\<rparr>"

definition demoLib :: TerminalLib where
  "demoLib =
     newTerminalLib \<lparr>containerDiv = [], history = []\<rparr> newVirtualOS
       (newAddonExecutor\<lparr>addons := [(''demo'', demoAddon)]\<rparr>) ''1/1/2025, 12:00:00 AM''"

text \<open>The same session after the input \<^verbatim>\<open>run demo\<close>.\<close>

definition startedLib :: TerminalLib where
  "startedLib = snd (route (remember demoLib ''run demo'') ''run demo'')"

text \<open>The session of \<open>demoLib\<close> after the inputs \<^verbatim>\<open>pwd\<close> and \<^verbatim>\<open>ls\<close>.\<close>

definition twoCommandsLib :: TerminalLib where
  "twoCommandsLib =
     snd (route (remember (snd (route (remember demoLib ''pwd'') ''pwd'')) ''ls'') ''ls'')"

text \<open>The file system of the session after the input \<^verbatim>\<open>cd C\<close>.\<close>

definition cdVOS :: VirtualOS where
  "cdVOS = snd (changeDir newVirtualOS ''C'')"

text \<open>
  The file system after \<^verbatim>\<open>createFile("/C/notes.txt")\<close> and \<^verbatim>\<open>changeDir("C")\<close>, the calls
  behind the inputs \<^verbatim>\<open>touch /C/notes.txt\<close> and \<^verbatim>\<open>cd C\<close>.
\<close>

definition notedVOS :: VirtualOS where
  "notedVOS = snd (changeDir (snd (createFile newVirtualOS ''/C/notes.txt'' [] ''text'')) ''C'')"

text \<open>The session of \<open>demoLib\<close> after the input \<^verbatim>\<open>cd C\<close>.\<close>

definition cdLib :: TerminalLib where
  "cdLib = snd (route (remember demoLib ''cd C'') ''cd C'')"



section \<open>Properties\<close>

subsection \<open>Unfolding \<open>runCommand\<close>\<close>

lemma runCommand_plain:
  "trim input \<noteq> [] \<Longrightarrow> \<not> startsWith (trim input) ''!'' \<Longrightarrow>
   runCommand lib input = Some (route (remember lib (trim input)) (trim input))"
  by (subst runCommand.simps) simp

lemma runCommand_recall:
  "startsWith (trim input) ''!'' \<Longrightarrow> recalled (commandHistory lib) (trim input) = Some cmd \<Longrightarrow>
   runCommand lib input = runCommand (say lib (''> '' @ cmd)) cmd"
  by (subst runCommand.simps) (auto simp: startsWith_def)

lemma runCommand_invalid:
  "startsWith (trim input) ''!'' \<Longrightarrow> recalled (commandHistory lib) (trim input) = None \<Longrightarrow>
   runCommand lib input = Some (Returned, say lib ''Invalid history index.'')"
  by (subst runCommand.simps) (auto simp: startsWith_def)

lemma runCommand_run_demo: "runCommand demoLib ''run demo'' = Some (Returned, startedLib)"
proof -
  have "trim ''run demo'' \<noteq> []" "\<not> startsWith (trim ''run demo'') ''!''" by code_simp+
  from runCommand_plain[OF this]
  have "runCommand demoLib ''run demo''
        = Some (route (remember demoLib (trim ''run demo'')) (trim ''run demo''))" .
  moreover have "route (remember demoLib (trim ''run demo'')) (trim ''run demo'')
                 = (Returned, startedLib)"
    by code_simp
  ultimately show ?thesis by simp
qed

subsection \<open>Path resolution\<close>

lemma lookupRef_self: "lookupRef n (ref n) = Some n"
  by (cases n) simp_all

lemma thisCwd_at_root: "cwd s = ref (root s) \<Longrightarrow> thisCwd s = Node (root s)"
  by (simp add: thisCwd_def lookupRef_self)

lemma walk_Null: "walk s parts Null = Null"
  by (induction parts) simp_all

lemma walk_append: "walk s (xs @ ys) current = walk s ys (walk s xs current)"
proof (induction xs arbitrary: current)
  case Nil
  show ?case by simp
next
  case (Cons x xs)
  show ?case
    by (cases current) (simp_all add: Cons.IH walk_Null)
qed

text \<open>
  C8. A \<^verbatim>\<open>..\<close> segment met while the walk stands at the root leaves it at the root, and
  \<^verbatim>\<open>_resolvePath("..")\<close> with the working directory at the root returns the root.
\<close>

theorem dotdot_at_root_stays:
  "walk s (''..'' # parts) (Node (root s)) = walk s parts (Node (root s)) \<and>
   (cwd s = ref (root s) \<longrightarrow> resolvePath s ''..'' = Node (root s))"
  by (simp add: resolvePath_def segments_def startsWith_def thisCwd_at_root)

theorem dotdot_at_root_stays_witness:
  "cwd newVirtualOS = ref (root newVirtualOS) \<and>
   resolvePath newVirtualOS ''..'' = Node (root newVirtualOS) \<and>
   walk newVirtualOS [''..'', ''C''] (Node (root newVirtualOS))
     = walk newVirtualOS [''C''] (Node (root newVirtualOS))"
proof -
  have h: "cwd newVirtualOS = ref (root newVirtualOS)" by code_simp
  from dotdot_at_root_stays[of newVirtualOS "[''C'']"] h show ?thesis by blast
qed

text \<open>
  C10. \<^verbatim>\<open>_resolvePath\<close> of the empty string, and of any path without a leading \<^verbatim>\<open>/\<close> whose
  segments are all empty, is the working directory. The \<^verbatim>\<open>cat\<close> command without an
  argument therefore works on the working directory: it displays it as it would display
  any value resolved, and since that is a directory the report is
  \<^verbatim>\<open>cat: No such file: undefined\<close>.
\<close>

theorem empty_path_is_cwd:
  "resolvePath s [] = thisCwd s \<and>
   (segments path = [] \<and> \<not> startsWith path ''/'' \<longrightarrow> resolvePath s path = thisCwd s) \<and>
   execute Cat [] lib = display (thisCwd (vOS lib)) [] lib \<and>
   (instanceofVDirectory (thisCwd (vOS lib)) \<longrightarrow>
      execute Cat [] lib = (Returned, say lib ''cat: No such file: undefined''))"
proof -
  have a: "resolvePath s [] = thisCwd s"
    by (simp add: resolvePath_def segments_def startsWith_def)
  have b: "segments path = [] \<and> \<not> startsWith path ''/'' \<longrightarrow> resolvePath s path = thisCwd s"
    by (auto simp: resolvePath_def startsWith_def)
  have c: "execute Cat [] lib = display (thisCwd (vOS lib)) [] lib"
    by (simp add: arg0Or_def arg0_def resolvePath_def segments_def startsWith_def)
  have d: "instanceofVDirectory (thisCwd (vOS lib)) \<longrightarrow>
      execute Cat [] lib = (Returned, say lib ''cat: No such file: undefined'')"
  proof
    assume dir: "instanceofVDirectory (thisCwd (vOS lib))"
    then obtain n where n: "thisCwd (vOS lib) = Node n" "isVDirectory n"
      by (cases "thisCwd (vOS lib)") auto
    then obtain r nm cs where "n = VDirectory r nm cs" by (cases n) auto
    with n c show "execute Cat [] lib = (Returned, say lib ''cat: No such file: undefined'')"
      by (simp add: arg0Text_def arg0_def)
  qed
  from a b c d show ?thesis by blast
qed

theorem empty_path_is_cwd_witness:
  "segments [] = [] \<and> \<not> startsWith [] ''/'' \<and>
   instanceofVDirectory (thisCwd (vOS demoLib)) \<and>
   resolvePath (vOS demoLib) [] = thisCwd (vOS demoLib) \<and>
   execute Cat [] demoLib = (Returned, say demoLib ''cat: No such file: undefined'')"
proof -
  have h1: "segments [] = [] \<and> \<not> startsWith [] ''/''" by code_simp
  have h2: "instanceofVDirectory (thisCwd (vOS demoLib))" by code_simp
  from empty_path_is_cwd[of "vOS demoLib" "[]" demoLib] h1 h2 show ?thesis by blast
qed

text \<open>
  C5, as the source has it. The walk returns \<^verbatim>\<open>null\<close> as soon as it reaches a segment
  other than \<^verbatim>\<open>.\<close> and \<^verbatim>\<open>..\<close> while its current value is not a directory, or is a
  directory that has no child under that name, the name not being one that
  \<^verbatim>\<open>Object.prototype\<close> supplies. (Segments \<^verbatim>\<open>.\<close> and \<^verbatim>\<open>..\<close> are processed without that
  test.)
\<close>

theorem resolve_fails_at_missing_name:
  assumes "segments path = pre @ part # post"
    and "part \<noteq> ''..''" and "part \<noteq> ''.''"
    and "walk s pre (if startsWith path ''/'' then Node (root s) else thisCwd s) = current"
    and "\<not> instanceofVDirectory current \<or>
         (\<exists>d. current = Node d \<and> map_of (children d) part = None \<and> part \<notin> set objectPrototypeKeys)"
  shows "resolvePath s path = Null"
proof -
  have ne: "path \<noteq> ''/''"
  proof
    assume "path = ''/''"
    then have "segments path = []" by (simp add: segments_def)
    with assms(1) show False by simp
  qed
  have step: "walk s (part # post) current = Null"
  proof (cases current)
    case Null
    then show ?thesis by (simp add: walk_Null)
  next
    case (Node d)
    with assms(5) have "\<not> isVDirectory d \<or> getChild d part = Null"
      by (auto simp: getChild_def)
    with Node assms(2,3) show ?thesis by auto
  next
    case (Inherited k)
    with assms(2,3) show ?thesis by simp
  qed
  have "resolvePath s path
        = walk s (pre @ part # post) (if startsWith path ''/'' then Node (root s) else thisCwd s)"
    using ne assms(1) by (simp add: resolvePath_def)
  also have "\<dots> = walk s (part # post) current"
    using assms(4) by (simp only: walk_append)
  finally show ?thesis using step by simp
qed

theorem resolve_fails_at_missing_name_witness:
  "segments ''/readme.txt/notes'' = [''readme.txt''] @ ''notes'' # [] \<and>
   walk newVirtualOS [''readme.txt'']
     (if startsWith ''/readme.txt/notes'' ''/'' then Node (root newVirtualOS)
      else thisCwd newVirtualOS)
     = Node (VFile 5 ''readme.txt'' ''Welcome to the terminal!'' ''text'') \<and>
   \<not> instanceofVDirectory (Node (VFile 5 ''readme.txt'' ''Welcome to the terminal!'' ''text'')) \<and>
   resolvePath newVirtualOS ''/readme.txt/notes'' = Null"
proof -
  have h1: "segments ''/readme.txt/notes'' = [''readme.txt''] @ ''notes'' # []" by code_simp
  have h2: "''notes'' \<noteq> ''..''" "''notes'' \<noteq> ''.''" by simp_all
  have h3: "walk newVirtualOS [''readme.txt'']
     (if startsWith ''/readme.txt/notes'' ''/'' then Node (root newVirtualOS)
      else thisCwd newVirtualOS)
     = Node (VFile 5 ''readme.txt'' ''Welcome to the terminal!'' ''text'')" by code_simp
  have h4: "\<not> instanceofVDirectory (Node (VFile 5 ''readme.txt'' ''Welcome to the terminal!'' ''text''))"
    by simp
  from resolve_fails_at_missing_name[OF h1 h2 h3] h4 h1 h3 show ?thesis by blast
qed

text \<open>
  C5 as the specification states it fails: with the walk standing on the file \<^verbatim>\<open>/readme.txt\<close> and
  the segment \<^verbatim>\<open>.\<close> still to process, \<^verbatim>\<open>_resolvePath\<close> returns the file.
\<close>

theorem resolve_through_file_counterexample:
  "walk newVirtualOS [''readme.txt''] (Node (root newVirtualOS))
     = Node (VFile 5 ''readme.txt'' ''Welcome to the terminal!'' ''text'') \<and>
   segments ''/readme.txt/.'' = [''readme.txt'', ''.''] \<and>
   resolvePath newVirtualOS ''/readme.txt/.''
     = Node (VFile 5 ''readme.txt'' ''Welcome to the terminal!'' ''text'')"
  by code_simp

subsection \<open>The addon session\<close>

lemma stopAddon_active:
  "activeAddon ae = AnAddon a \<Longrightarrow>
   stopAddon ae t =
     (case executorTerm ae of
        None \<Rightarrow> (Threw TypeError, ae\<lparr>activeAddon := NoAddon\<rparr>, t)
      | Some r \<Rightarrow> (Returned, ae\<lparr>activeAddon := NoAddon\<rparr>, print t ''Returned to main terminal.''))"
  by (simp add: stopAddon_def)

lemma startAddon_busy:
  "activeAddon ae \<noteq> NoAddon \<Longrightarrow>
   startAddon ae nm t = (Returned, ae, print t ''An addon is already running. Please 'exit' first.'')"
  by (simp add: startAddon_def)

lemma startAddon_idle:
  "activeAddon ae = NoAddon \<Longrightarrow> map_of (addons ae) (toLowerCase nm) = Some addon \<Longrightarrow>
   startAddon ae nm t =
     (Returned,
      ae\<lparr>activeAddon := AnAddon (onStart addon),
         addons := assign (toLowerCase nm) (onStart addon) (addons ae)\<rparr>,
      t)"
  by (simp add: startAddon_def lookupAddon_def)

text \<open>
  C1, evaluated. In the session where \<^verbatim>\<open>run demo\<close> has started the addon, \<^verbatim>\<open>stopAddon()\<close>
  calls the stop hook and clears \<^verbatim>\<open>activeAddon\<close>, then throws a \<^verbatim>\<open>TypeError\<close> at
  \<^verbatim>\<open>this.term.print\<close>: nothing is printed, and the input \<^verbatim>\<open>exit\<close> leaves \<^verbatim>\<open>runCommand\<close> with
  that exception.
\<close>

theorem stopAddon_throws_TypeError:
  "executorTerm newAddonExecutor = None \<and>
   activeAddon (addonExecutor startedLib) = AnAddon (onStart demoAddon) \<and>
   stopAddon (addonExecutor startedLib) (terminal startedLib)
     = (Threw TypeError, (addonExecutor startedLib)\<lparr>activeAddon := NoAddon\<rparr>, terminal startedLib) \<and>
   runCommand startedLib ''exit''
     = Some (Threw TypeError,
             startedLib\<lparr>commandHistory := [''run demo'', ''exit''],
                          addonExecutor := (addonExecutor startedLib)\<lparr>activeAddon := NoAddon\<rparr>\<rparr>)"
proof -
  have a: "executorTerm newAddonExecutor = None" by code_simp
  have b: "activeAddon (addonExecutor startedLib) = AnAddon (onStart demoAddon)" by code_simp
  have c: "stopAddon (addonExecutor startedLib) (terminal startedLib)
     = (Threw TypeError, (addonExecutor startedLib)\<lparr>activeAddon := NoAddon\<rparr>, terminal startedLib)"
    by code_simp
  have "trim ''exit'' \<noteq> []" "\<not> startsWith (trim ''exit'') ''!''" by code_simp+
  from runCommand_plain[OF this]
  have "runCommand startedLib ''exit''
        = Some (route (remember startedLib (trim ''exit'')) (trim ''exit''))" .
  moreover have "route (remember startedLib (trim ''exit'')) (trim ''exit'')
     = (Threw TypeError,
        startedLib\<lparr>commandHistory := [''run demo'', ''exit''],
                     addonExecutor := (addonExecutor startedLib)\<lparr>activeAddon := NoAddon\<rparr>\<rparr>)"
    by code_simp
  ultimately have d: "runCommand startedLib ''exit''
     = Some (Threw TypeError,
             startedLib\<lparr>commandHistory := [''run demo'', ''exit''],
                          addonExecutor := (addonExecutor startedLib)\<lparr>activeAddon := NoAddon\<rparr>\<rparr>)"
    by simp
  from a b c d show ?thesis by blast
qed

text \<open>
  C3. From the idle executor with \<open>a\<close> registered, \<^verbatim>\<open>startAddon(a)\<close> returns with \<open>a\<close>
  active. While an addon is active, \<^verbatim>\<open>startAddon(b)\<close> for any \<open>b\<close> returns having printed
  the request to exit first and leaves the executor as it was: the active addon stays,
  and no addon object is written, so no start hook has run. \<^verbatim>\<open>stopAddon()\<close> leaves the
  executor idle with its table untouched, and from there \<^verbatim>\<open>startAddon(b)\<close> for a
  registered \<open>b\<close> returns with \<open>b\<close> started and active.
\<close>

theorem addon_exclusivity:
  assumes idle: "activeAddon ae = NoAddon"
    and a: "map_of (addons ae) (toLowerCase a) = Some A"
    and b: "map_of (assign (toLowerCase a) (onStart A) (addons ae)) (toLowerCase b) = Some B"
    and ae1: "ae1 = fst (snd (startAddon ae a t))"
    and ae3: "ae3 = fst (snd (stopAddon ae1 t2))"
  shows "startAddon ae a t = (Returned, ae1, t) \<and>
         activeAddon ae1 = AnAddon (onStart A) \<and>
         startAddon ae1 b t1
           = (Returned, ae1, print t1 ''An addon is already running. Please 'exit' first.'') \<and>
         activeAddon ae3 = NoAddon \<and> addons ae3 = addons ae1 \<and>
         (\<exists>ae4. startAddon ae3 b t3 = (Returned, ae4, t3) \<and>
                activeAddon ae4 = AnAddon (onStart B) \<and>
                map_of (addons ae4) (toLowerCase b) = Some (onStart B))"
proof -
  have ae1_eq: "ae1 = ae\<lparr>activeAddon := AnAddon (onStart A),
                          addons := assign (toLowerCase a) (onStart A) (addons ae)\<rparr>"
    using startAddon_idle[OF idle a, of t] by (simp add: ae1)
  have s1: "startAddon ae a t = (Returned, ae1, t)"
    using startAddon_idle[OF idle a, of t] by (simp add: ae1_eq)
  have act1: "activeAddon ae1 = AnAddon (onStart A)" by (simp add: ae1_eq)
  then have busy: "activeAddon ae1 \<noteq> NoAddon" by simp
  have s2: "startAddon ae1 b t1
            = (Returned, ae1, print t1 ''An addon is already running. Please 'exit' first.'')"
    using startAddon_busy[OF busy] .
  have ae3_eq: "ae3 = ae1\<lparr>activeAddon := NoAddon\<rparr>"
    using stopAddon_active[OF act1, of t2] by (cases "executorTerm ae1") (simp_all add: ae3)
  have idle3: "activeAddon ae3 = NoAddon" by (simp add: ae3_eq)
  have tab3: "addons ae3 = addons ae1" by (simp add: ae3_eq)
  have b3: "map_of (addons ae3) (toLowerCase b) = Some B"
    using b by (simp add: ae3_eq ae1_eq)
  define ae4 where "ae4 = ae3\<lparr>activeAddon := AnAddon (onStart B),
                                addons := assign (toLowerCase b) (onStart B) (addons ae3)\<rparr>"
  have s4: "startAddon ae3 b t3 = (Returned, ae4, t3)"
    using startAddon_idle[OF idle3 b3] by (simp add: ae4_def)
  have act4: "activeAddon ae4 = AnAddon (onStart B)" by (simp add: ae4_def)
  have key: "toLowerCase b \<in> fst ` set (addons ae3)"
    using b3 by (metis domI dom_map_of_conv_image_fst)
  have upd: "map_of (assign k v tab) k = Some v" if "k \<in> fst ` set tab"
    for k and v :: Addon and tab :: "(string \<times> Addon) list"
    using that by (induction tab) (auto simp: assign_def)
  have tab4: "map_of (addons ae4) (toLowerCase b) = Some (onStart B)"
    using upd[OF key] by (simp add: ae4_def)
  from s4 act4 tab4
  have "\<exists>ae4. startAddon ae3 b t3 = (Returned, ae4, t3) \<and>
              activeAddon ae4 = AnAddon (onStart B) \<and>
              map_of (addons ae4) (toLowerCase b) = Some (onStart B)"
    by blast
  with s1 act1 s2 idle3 tab3 show ?thesis by blast
qed

theorem addon_exclusivity_witness:
  "activeAddon (addonExecutor demoLib) = NoAddon \<and>
   map_of (addons (addonExecutor demoLib)) (toLowerCase ''Demo'') = Some demoAddon \<and>
   map_of (assign (toLowerCase ''Demo'') (onStart demoAddon) (addons (addonExecutor demoLib)))
     (toLowerCase ''DEMO'') = Some (onStart demoAddon) \<and>
   addonExecutor startedLib
     = fst (snd (startAddon (addonExecutor demoLib) ''Demo'' (terminal demoLib))) \<and>
   startAddon (addonExecutor startedLib) ''DEMO'' (terminal startedLib)
     = (Returned, addonExecutor startedLib,
        print (terminal startedLib) ''An addon is already running. Please 'exit' first.'') \<and>
   activeAddon (fst (snd (stopAddon (addonExecutor startedLib) (terminal startedLib)))) = NoAddon \<and>
   (\<exists>ae4. startAddon (fst (snd (stopAddon (addonExecutor startedLib) (terminal startedLib))))
            ''DEMO'' (terminal startedLib) = (Returned, ae4, terminal startedLib) \<and>
          activeAddon ae4 = AnAddon (onStart (onStart demoAddon)))"
proof -
  have h1: "activeAddon (addonExecutor demoLib) = NoAddon" by code_simp
  have h2: "map_of (addons (addonExecutor demoLib)) (toLowerCase ''Demo'') = Some demoAddon"
    by code_simp
  have h3: "map_of (assign (toLowerCase ''Demo'') (onStart demoAddon) (addons (addonExecutor demoLib)))
              (toLowerCase ''DEMO'') = Some (onStart demoAddon)"
    by code_simp
  have h4: "addonExecutor startedLib
            = fst (snd (startAddon (addonExecutor demoLib) ''Demo'' (terminal demoLib)))"
    by code_simp
  from addon_exclusivity[OF h1 h2 h3 h4 refl, of "terminal startedLib" "terminal startedLib"
      "terminal startedLib"] h1 h2 h3 h4
  show ?thesis by blast
qed

subsection \<open>Creating nodes\<close>

text \<open>
  The collision test of \<^verbatim>\<open>createFile\<close> and \<^verbatim>\<open>createDirectory\<close>, under the directory that
  they resolve, \<^verbatim>\<open>parts.join('/') || '/'\<close>: \<^verbatim>\<open>createFile\<close> fails and changes nothing when
  the final segment of the path is the name of a child of that directory, and
  \<^verbatim>\<open>createDirectory\<close> when the name it gives the new directory is.
\<close>

lemma collision_under_resolved_directory:
  assumes "resolvePath s (orElse (join ''/'' (butlast (split CHR ''/'' path))) ''/'') = Node d"
  shows "(map_of (children d) (last (split CHR ''/'' path)) \<noteq> None \<longrightarrow>
            createFile s path content type = (False, s)) \<and>
         (map_of (children d) (orElse (last (split CHR ''/'' path)) path) \<noteq> None \<longrightarrow>
            createDirectory s path = (False, s)) \<and>
         (last (split CHR ''/'' path) \<noteq> [] \<and>
          map_of (children d) (last (split CHR ''/'' path)) \<noteq> None \<longrightarrow>
            createDirectory s path = (False, s))"
proof -
  have f: "createFile s path content type = (False, s)"
    if "map_of (children d) (last (split CHR ''/'' path)) \<noteq> None"
    using assms that by (auto simp: createFile_def Let_def getChild_def)
  have g: "createDirectory s path = (False, s)"
    if "map_of (children d) (orElse (last (split CHR ''/'' path)) path) \<noteq> None"
    using assms that by (auto simp: createDirectory_def Let_def getChild_def)
  have h: "createDirectory s path = (False, s)"
    if "last (split CHR ''/'' path) \<noteq> []"
      and "map_of (children d) (last (split CHR ''/'' path)) \<noteq> None"
  proof -
    from that(1) have "orElse (last (split CHR ''/'' path)) path = last (split CHR ''/'' path)"
      by (simp add: orElse_def)
    with that(2) g show ?thesis by simp
  qed
  from f g h show ?thesis by blast
qed

text \<open>With an absolute path the resolved directory is the parent: \<^verbatim>\<open>/C/Users\<close> collides.\<close>

lemma collision_on_absolute_path:
  "createFile newVirtualOS ''/C/Users'' [] ''text'' = (False, newVirtualOS) \<and>
   createDirectory newVirtualOS ''/C/Users'' = (False, newVirtualOS)"
  by code_simp

text \<open>
  C4, evaluated. After \<^verbatim>\<open>cd C\<close> the current directory is \<^verbatim>\<open>/C\<close> and the path \<^verbatim>\<open>Users\<close>
  resolves to its child \<^verbatim>\<open>/C/Users\<close>: the final segment of the path names an existing child
  of the parent directory. \<^verbatim>\<open>createDirectory("Users")\<close> returns \<^verbatim>\<open>true\<close> and changes the
  tree: it adds a second directory \<^verbatim>\<open>Users\<close>, under the root. Likewise, where
  \<^verbatim>\<open>/C/notes.txt\<close> exists and the current directory is \<^verbatim>\<open>/C\<close>, the path \<^verbatim>\<open>notes.txt\<close>
  resolves to that file, and \<^verbatim>\<open>createFile("notes.txt")\<close> returns \<^verbatim>\<open>true\<close> and adds a file
  \<^verbatim>\<open>notes.txt\<close> under the root.
\<close>

theorem create_in_cwd_collision_succeeds:
  "thisCwd cdVOS
     = Node (VDirectory 1 ''C''
               [(''Users'', VDirectory 2 ''Users'' []),
                (''Program Files'', VDirectory 3 ''Program Files'' [])]) \<and>
   resolvePath cdVOS ''Users'' = Node (VDirectory 2 ''Users'' []) \<and>
   getFullPath cdVOS (VDirectory 2 ''Users'' []) = ''/C/Users'' \<and>
   createDirectory cdVOS ''Users''
     = (True,
        \<lparr>root = VDirectory 0 ''/''
           [(''C'', VDirectory 1 ''C''
               [(''Users'', VDirectory 2 ''Users'' []),
                (''Program Files'', VDirectory 3 ''Program Files'' [])]),
            (''D'', VDirectory 4 ''D'' []),
            (''readme.txt'', VFile 5 ''readme.txt'' ''Welcome to the terminal!'' ''text''),
            (''Users'', VDirectory 6 ''Users'' [])],
         cwd = 1, nextRef = 7\<rparr>) \<and>
   thisCwd notedVOS
     = Node (VDirectory 1 ''C''
               [(''Users'', VDirectory 2 ''Users'' []),
                (''Program Files'', VDirectory 3 ''Program Files'' []),
                (''notes.txt'', VFile 6 ''notes.txt'' [] ''text'')]) \<and>
   resolvePath notedVOS ''notes.txt'' = Node (VFile 6 ''notes.txt'' [] ''text'') \<and>
   getFullPath notedVOS (VFile 6 ''notes.txt'' [] ''text'') = ''/C/notes.txt'' \<and>
   createFile notedVOS ''notes.txt'' [] ''text''
     = (True,
        \<lparr>root = VDirectory 0 ''/''
           [(''C'', VDirectory 1 ''C''
               [(''Users'', VDirectory 2 ''Users'' []),
                (''Program Files'', VDirectory 3 ''Program Files'' []),
                (''notes.txt'', VFile 6 ''notes.txt'' [] ''text'')]),
            (''D'', VDirectory 4 ''D'' []),
            (''readme.txt'', VFile 5 ''readme.txt'' ''Welcome to the terminal!'' ''text''),
            (''notes.txt'', VFile 7 ''notes.txt'' [] ''text'')],
         cwd = 1, nextRef = 8\<rparr>)"
  by code_simp

text \<open>
  The same through the command line: after the input \<^verbatim>\<open>cd C\<close>, the input \<^verbatim>\<open>mkdir Users\<close>
  prints nothing and leaves the file system that \<^verbatim>\<open>createDirectory("Users")\<close> returns.
\<close>

lemma mkdir_in_cwd_session:
  "fst (route (remember cdLib ''mkdir Users'') ''mkdir Users'') = Returned \<and>
   vOS cdLib = cdVOS \<and>
   terminal (snd (route (remember cdLib ''mkdir Users'') ''mkdir Users'')) = terminal demoLib \<and>
   vOS (snd (route (remember cdLib ''mkdir Users'') ''mkdir Users''))
     = snd (createDirectory cdVOS ''Users'')"
  by code_simp

text \<open>
  The cause: a path without \<^verbatim>\<open>/\<close> leaves \<^verbatim>\<open>parts\<close> empty once its name is popped, and
  \<^verbatim>\<open>parts.join('/') || '/'\<close> is then \<^verbatim>\<open>'/'\<close>. The directory resolved is the root, whatever
  the current directory.
\<close>

lemma bare_name_resolves_root:
  assumes "CHR ''/'' \<notin> set path"
  shows "orElse (join ''/'' (butlast (split CHR ''/'' path))) ''/'' = ''/''"
proof -
  have "split CHR ''/'' p = [p]" if "CHR ''/'' \<notin> set p" for p
    using that by (induction p) auto
  with assms show ?thesis by (simp add: orElse_def)
qed

text \<open>
  C6, evaluated. \<^verbatim>\<open>createFile("/C/")\<close> on the initial layout succeeds and stores a file
  whose name is the empty string under \<^verbatim>\<open>/C\<close>; \<^verbatim>\<open>createDirectory("")\<close> stores a directory
  whose name is the empty string under the root.
\<close>

theorem createFile_inserts_empty_name:
  "createFile newVirtualOS ''/C/'' [] ''text''
     = (True,
        \<lparr>root = VDirectory 0 ''/''
           [(''C'', VDirectory 1 ''C''
               [(''Users'', VDirectory 2 ''Users'' []),
                (''Program Files'', VDirectory 3 ''Program Files'' []),
                ([], VFile 6 [] [] ''text'')]),
            (''D'', VDirectory 4 ''D'' []),
            (''readme.txt'', VFile 5 ''readme.txt'' ''Welcome to the terminal!'' ''text'')],
         cwd = 0, nextRef = 7\<rparr>) \<and>
   name (VFile 6 [] [] ''text'') = [] \<and>
   createDirectory newVirtualOS []
     = (True,
        \<lparr>root = VDirectory 0 ''/''
           [(''C'', VDirectory 1 ''C''
               [(''Users'', VDirectory 2 ''Users'' []),
                (''Program Files'', VDirectory 3 ''Program Files'' [])]),
            (''D'', VDirectory 4 ''D'' []),
            (''readme.txt'', VFile 5 ''readme.txt'' ''Welcome to the terminal!'' ''text''),
            ([], VDirectory 6 [] [])],
         cwd = 0, nextRef = 7\<rparr>)"
  by code_simp


text \<open>
  A listing is in the host's order of enumeration: the directories \<^verbatim>\<open>7\<close> and \<^verbatim>\<open>10\<close>, made
  after the initial layout, are listed ahead of it, and \<^verbatim>\<open>07\<close>, no array index, behind.
\<close>

lemma listFiles_array_indices_first:
  "listFiles (snd (createDirectory (snd (createDirectory (snd (createDirectory
       newVirtualOS ''/10'')) ''/07'')) ''/7'')) ''/''
     = [''7/'', ''10/'', ''C/'', ''D/'', ''readme.txt'', ''07/'']"
  by code_simp

subsection \<open>Command history and recall\<close>

lemma digitValue_nth: "d < 10 \<Longrightarrow> digitValue (''0123456789'' ! d) = Some (int d)"
proof -
  assume "d < 10"
  then have "d \<in> {0, 1, 2, 3, 4, 5, 6, 7, 8, 9::nat}" by auto
  then show ?thesis
    by (auto simp: digitValue_def)
qed

lemma isDigit_cases: "isDigit c \<Longrightarrow> c \<in> set ''0123456789''"
  by (simp add: isDigit_def digitValue_def split: if_splits)

lemma isDigit_not_space: "isDigit c \<Longrightarrow> \<not> isSpace c"
proof -
  assume "isDigit c"
  then have "c \<in> set ''0123456789''" by (rule isDigit_cases)
  then show ?thesis by (auto simp: isSpace_def)
qed

lemma isDigit_not_sign: "isDigit c \<Longrightarrow> c \<noteq> CHR ''-'' \<and> c \<noteq> CHR ''+''"
  by (auto simp: isDigit_def digitValue_def)

lemma digitsValue_snoc:
  "digitsValue (ds @ [d]) = 10 * digitsValue ds + (case digitValue d of Some v \<Rightarrow> v | None \<Rightarrow> 0)"
  by (simp add: digitsValue_def)

lemma showNat_small: "n < 10 \<Longrightarrow> showNat n = [''0123456789'' ! n]"
  by (subst showNat.simps) simp

lemma showNat_large:
  "\<not> n < 10 \<Longrightarrow> showNat n = showNat (n div 10) @ [''0123456789'' ! (n mod 10)]"
  by (subst showNat.simps) simp

lemma showNat_digits: "\<forall>c\<in>set (showNat n). isDigit c"
proof (induction n rule: showNat.induct)
  case (1 n)
  show ?case
  proof (cases "n < 10")
    case True
    then show ?thesis
      by (simp add: showNat_small isDigit_def digitValue_nth)
  next
    case False
    have "n mod 10 < 10" by simp
    then have "isDigit (''0123456789'' ! (n mod 10))"
      by (simp only: isDigit_def digitValue_nth) simp
    with False "1.IH" show ?thesis
      by (simp add: showNat_large)
  qed
qed

lemma showNat_nonempty: "showNat n \<noteq> []"
  by (cases "n < 10") (simp_all add: showNat_small showNat_large)

lemma showNat_value: "digitsValue (showNat n) = int n"
proof (induction n rule: showNat.induct)
  case (1 n)
  show ?case
  proof (cases "n < 10")
    case True
    then show ?thesis
      by (simp add: showNat_small digitsValue_def digitValue_nth)
  next
    case False
    have "n mod 10 < 10" by simp
    then have d: "digitValue (''0123456789'' ! (n mod 10)) = Some (int (n mod 10))"
      by (rule digitValue_nth)
    have "digitsValue (showNat n)
          = digitsValue (showNat (n div 10) @ [''0123456789'' ! (n mod 10)])"
      using showNat_large[OF False] by simp
    also have "\<dots> = 10 * int (n div 10) + int (n mod 10)"
      using "1.IH"[OF False] d by (simp only: digitsValue_snoc) simp
    also have "\<dots> = int (10 * (n div 10) + n mod 10)"
      by (simp only: of_nat_add of_nat_mult of_nat_numeral)
    also have "\<dots> = int n" by (simp only: mult_div_mod_eq)
    finally show ?thesis .
  qed
qed

lemma parseInt_showNat: "parseInt (showNat n) = Some (int n)"
proof -
  obtain c r where cr: "showNat n = c # r"
    using showNat_nonempty[of n] by (cases "showNat n") auto
  have dig: "\<forall>x\<in>set (c # r). isDigit x" using showNat_digits[of n] cr by simp
  then have c: "isDigit c" by simp
  have d1: "dropWhile isSpace (c # r) = c # r" using isDigit_not_space[OF c] by simp
  have tw: "takeWhile isDigit (c # r) = c # r"
    using dig takeWhile_eq_all_conv[of isDigit "c # r"] by blast
  from isDigit_not_sign[OF c] have ns: "c \<noteq> CHR ''-''" "c \<noteq> CHR ''+''" by simp_all
  have "parseInt (c # r) = Some (digitsValue (c # r))"
    unfolding parseInt_def d1 Let_def using ns tw by simp
  then show ?thesis using showNat_value[of n] cr by simp
qed

lemma trim_id: "s \<noteq> [] \<Longrightarrow> \<not> isSpace (hd s) \<Longrightarrow> \<not> isSpace (last s) \<Longrightarrow> trim s = s"
proof -
  assume s: "s \<noteq> []" and h: "\<not> isSpace (hd s)" and l: "\<not> isSpace (last s)"
  have a: "dropWhile isSpace s = s" using h by (simp add: dropWhile_eq_self_iff)
  have "hd (rev s) = last s" using s by (simp add: hd_rev)
  then have b: "dropWhile isSpace (rev s) = rev s" using l by (simp add: dropWhile_eq_self_iff)
  show ?thesis by (simp add: trim_def a b)
qed

lemma trim_idem: "trim (trim s) = trim s"
proof (cases "trim s = []")
  case True
  have "trim [] = []" by (simp add: trim_def)
  with True show ?thesis by simp
next
  case False
  define a where "a = dropWhile isSpace s"
  define b where "b = rev (dropWhile isSpace (rev a))"
  have tb: "trim s = b" by (simp add: trim_def a_def b_def)
  with False have bne: "b \<noteq> []" by simp
  have revb: "rev b = dropWhile isSpace (rev a)" by (simp add: b_def)
  have "rev a = takeWhile isSpace (rev a) @ rev b" by (simp add: revb)
  then have "rev (rev a) = rev (takeWhile isSpace (rev a) @ rev b)" by simp
  then have ab: "a = b @ rev (takeWhile isSpace (rev a))" by simp
  then have "hd a = hd (b @ rev (takeWhile isSpace (rev a)))" by simp
  then have "hd a = hd b" using bne by simp
  moreover have "a \<noteq> []" using ab bne by auto
  then have "\<not> isSpace (hd a)" unfolding a_def by (rule hd_dropWhile)
  ultimately have h: "\<not> isSpace (hd b)" by simp
  have "rev b \<noteq> []" using bne by simp
  then have "\<not> isSpace (hd (rev b))" unfolding revb by (rule hd_dropWhile)
  then have l: "\<not> isSpace (last b)" using bne by (simp add: hd_rev)
  from trim_id[OF bne h l] tb show ?thesis by simp
qed

lemma trim_recall_line: "trim (''!'' @ showNat n) = ''!'' @ showNat n"
proof -
  have "last (''!'' @ showNat n) = last (showNat n)"
    using showNat_nonempty[of n] by simp
  moreover have "isDigit (last (showNat n))"
    using showNat_digits[of n] showNat_nonempty[of n] last_in_set by blast
  ultimately have l: "\<not> isSpace (last (''!'' @ showNat n))"
    using isDigit_not_space by simp
  have h: "\<not> isSpace (hd (''!'' @ showNat n))" by (simp add: isSpace_def)
  show ?thesis by (rule trim_id[OF _ h l]) simp
qed

lemma recalled_valid:
  assumes "1 \<le> n" and "n \<le> length h" and "h ! (n - 1) \<noteq> []"
  shows "recalled h (''!'' @ showNat n) = Some (h ! (n - 1))"
proof -
  have "nat (int n - 1) = n - 1" by simp
  moreover have "0 \<le> int n - 1" using assms(1) by simp
  moreover have "int n - 1 < int (length h)" using assms(2) by simp
  ultimately show ?thesis
    using assms(3) by (simp add: recalled_def parseInt_showNat)
qed

text \<open>No command, and neither addon call, writes \<^verbatim>\<open>commandHistory\<close>.\<close>

lemma display_history: "commandHistory (snd (display v args lib)) = commandHistory lib"
  by (induction v args lib rule: display.induct) (simp_all add: say_def sayAll_def)

lemma execute_history: "commandHistory (snd (execute h args lib)) = commandHistory lib"
  by (cases h)
     (simp_all add: display_history say_def sayAll_def liftAddon_def Let_def
        split: jsval.splits node.splits)

lemma route_history: "commandHistory (snd (route lib input)) = commandHistory lib"
  by (simp add: route_def execute_history liftAddon_def say_def
        split: list.splits commandval.splits)

lemma remember_history:
  "commandHistory (remember lib input)
   = (if commandHistory lib = [] \<or> last (commandHistory lib) \<noteq> input
      then commandHistory lib @ [input] else commandHistory lib)"
  by (simp add: remember_def)

lemma stored_trim: "trim input \<noteq> [] \<Longrightarrow> \<not> startsWith (trim input) ''!'' \<Longrightarrow> stored (trim input)"
  by (simp add: stored_def trim_idem)

lemma runCommand_stored:
  "stored cmd \<Longrightarrow> runCommand lib cmd = Some (route (remember lib cmd) cmd)"
  using runCommand_plain[of cmd lib] by (simp add: stored_def)

lemma recalled_member: "recalled h input = Some cmd \<Longrightarrow> cmd \<in> set h"
  by (auto simp: recalled_def split: option.splits if_splits)

text \<open>
  One call: from a history of stored lines, \<^verbatim>\<open>runCommand\<close> returns for every input, with
  at most one call of itself inside, and leaves a history of stored lines.
\<close>

lemma runCommand_returns:
  assumes inv: "\<forall>e\<in>set (commandHistory lib). stored e"
  shows "\<exists>out lib'. runCommand lib input = Some (out, lib') \<and>
                     (\<forall>e\<in>set (commandHistory lib'). stored e)"
proof (cases "trim input = []")
  case True
  then have "runCommand lib input = Some (Returned, lib)"
    by (subst runCommand.simps) simp
  with inv show ?thesis by blast
next
  case ne: False
  show ?thesis
  proof (cases "startsWith (trim input) ''!''")
    case False
    have st: "stored (trim input)" using ne False by (rule stored_trim)
    obtain out lib' where r: "route (remember lib (trim input)) (trim input) = (out, lib')"
      by (cases "route (remember lib (trim input)) (trim input)")
    have "commandHistory lib' = commandHistory (remember lib (trim input))"
      using route_history[of "remember lib (trim input)" "trim input"] r by simp
    then have "\<forall>e\<in>set (commandHistory lib'). stored e"
      using inv st by (auto simp: remember_history split: if_splits)
    moreover have "runCommand lib input = Some (out, lib')"
      using runCommand_plain[OF ne False] r by simp
    ultimately show ?thesis by blast
  next
    case True
    show ?thesis
    proof (cases "recalled (commandHistory lib) (trim input)")
      case None
      have "runCommand lib input = Some (Returned, say lib ''Invalid history index.'')"
        using runCommand_invalid[OF True None] .
      moreover have "commandHistory (say lib ''Invalid history index.'') = commandHistory lib"
        by (simp add: say_def)
      ultimately show ?thesis using inv by auto
    next
      case (Some cmd)
      have st: "stored cmd" using recalled_member[OF Some] inv by blast
      define lib1 where "lib1 = say lib (''> '' @ cmd)"
      have h1: "commandHistory lib1 = commandHistory lib" by (simp add: lib1_def say_def)
      obtain out lib' where r: "route (remember lib1 cmd) cmd = (out, lib')"
        by (cases "route (remember lib1 cmd) cmd")
      have "commandHistory lib' = commandHistory (remember lib1 cmd)"
        using route_history[of "remember lib1 cmd" cmd] r by simp
      then have "\<forall>e\<in>set (commandHistory lib'). stored e"
        using inv st h1 by (auto simp: remember_history split: if_splits)
      moreover have "runCommand lib input = Some (out, lib')"
        using runCommand_recall[OF True Some] runCommand_stored[OF st, of lib1] r
        by (simp add: lib1_def)
      ultimately show ?thesis by blast
    qed
  qed
qed

lemma runAll_returns:
  assumes "\<forall>e\<in>set (commandHistory lib). stored e"
  shows "\<exists>lib'. runAll lib inputs = Some lib' \<and> (\<forall>e\<in>set (commandHistory lib'). stored e)"
  using assms
proof (induction inputs arbitrary: lib)
  case Nil
  then show ?case by simp
next
  case (Cons input inputs)
  from runCommand_returns[OF Cons.prems, of input]
  obtain out lib1 where r: "runCommand lib input = Some (out, lib1)"
    and inv1: "\<forall>e\<in>set (commandHistory lib1). stored e"
    by blast
  from Cons.IH[OF inv1] r show ?case by simp
qed

text \<open>
  C9. In every session that starts with an empty command history, after any sequence of
  input lines: no entry of the history begins with \<^verbatim>\<open>!\<close> (nor is one empty), and
  \<^verbatim>\<open>runCommand\<close> returns for every input line, a recall among them.
\<close>

theorem recall_terminates:
  assumes "commandHistory lib0 = []"
  shows "\<exists>lib. runAll lib0 inputs = Some lib \<and>
               (\<forall>e\<in>set (commandHistory lib). e \<noteq> [] \<and> \<not> startsWith e ''!'') \<and>
               (\<forall>input. \<exists>r. runCommand lib input = Some r)"
proof -
  have "\<forall>e\<in>set (commandHistory lib0). stored e" using assms by simp
  from runAll_returns[OF this, of inputs]
  obtain lib where run: "runAll lib0 inputs = Some lib"
    and inv: "\<forall>e\<in>set (commandHistory lib). stored e"
    by blast
  have "\<forall>e\<in>set (commandHistory lib). e \<noteq> [] \<and> \<not> startsWith e ''!''"
    using inv by (simp add: stored_def)
  moreover have "\<forall>input. \<exists>r. runCommand lib input = Some r"
    using runCommand_returns[OF inv] by blast
  ultimately show ?thesis using run by blast
qed

lemma runAll_pwd_ls: "runAll demoLib [''pwd'', ''ls''] = Some twoCommandsLib"
proof -
  have p: "stored ''pwd''" and l: "stored ''ls''" by code_simp+
  have "runCommand demoLib ''pwd'' = Some (route (remember demoLib ''pwd'') ''pwd'')"
    using p by (rule runCommand_stored)
  moreover have "runCommand (snd (route (remember demoLib ''pwd'') ''pwd'')) ''ls''
        = Some (route (remember (snd (route (remember demoLib ''pwd'') ''pwd'')) ''ls'') ''ls'')"
    using l by (rule runCommand_stored)
  ultimately show ?thesis by (simp add: twoCommandsLib_def)
qed

theorem recall_terminates_witness:
  "commandHistory demoLib = [] \<and>
   runAll demoLib [''pwd'', ''ls''] = Some twoCommandsLib \<and>
   commandHistory twoCommandsLib = [''pwd'', ''ls''] \<and>
   (\<exists>r. runCommand twoCommandsLib ''!1'' = Some r)"
proof -
  have h: "commandHistory demoLib = []" by code_simp
  have c: "commandHistory twoCommandsLib = [''pwd'', ''ls'']" by code_simp
  from recall_terminates[OF h, of "[''pwd'', ''ls'']"]
  obtain lib where run: "runAll demoLib [''pwd'', ''ls''] = Some lib"
    and ret: "\<forall>input. \<exists>r. runCommand lib input = Some r"
    by blast
  from run have "lib = twoCommandsLib" by (simp only: runAll_pwd_ls option.inject)
  with ret have "\<exists>r. runCommand twoCommandsLib ''!1'' = Some r" by blast
  with h c runAll_pwd_ls show ?thesis by blast
qed

text \<open>
  C2, as the source has it. From a history of stored lines, as every history that
  \<^verbatim>\<open>runCommand\<close> has built is, the input \<^verbatim>\<open>!n\<close> with \<open>n\<close> a valid 1-based index prints the
  echo line for the \<open>n\<close>-th entry and then runs that entry as \<^verbatim>\<open>runCommand\<close> runs any
  line. The recall line is not stored, but the entry is stored again unless it is the
  last entry of the history: afterwards the history is the old one when the \<open>n\<close>-th entry
  is its last, and the old one followed by one more copy of the \<open>n\<close>-th entry otherwise.
\<close>

theorem recall_replays_and_stores:
  assumes inv: "\<forall>e\<in>set (commandHistory lib). stored e"
    and n: "1 \<le> n" "n \<le> length (commandHistory lib)"
    and cmd: "cmd = commandHistory lib ! (n - 1)"
  shows "runCommand lib (''!'' @ showNat n) = runCommand (say lib (''> '' @ cmd)) cmd \<and>
         (\<exists>out lib'.
            runCommand lib (''!'' @ showNat n) = Some (out, lib') \<and>
            commandHistory lib'
              = (if last (commandHistory lib) = cmd then commandHistory lib
                 else commandHistory lib @ [cmd]))"
proof -
  have mem: "cmd \<in> set (commandHistory lib)" using n cmd by simp
  then have st: "stored cmd" using inv by blast
  then have "commandHistory lib ! (n - 1) \<noteq> []" using cmd by (simp add: stored_def)
  from recalled_valid[OF n this]
  have rec: "recalled (commandHistory lib) (trim (''!'' @ showNat n)) = Some cmd"
    by (simp only: trim_recall_line cmd)
  have bang: "startsWith (trim (''!'' @ showNat n)) ''!''"
    by (simp only: trim_recall_line) (simp add: startsWith_def)
  have a: "runCommand lib (''!'' @ showNat n) = runCommand (say lib (''> '' @ cmd)) cmd"
    using runCommand_recall[OF bang rec] .
  define lib1 where "lib1 = say lib (''> '' @ cmd)"
  have h1: "commandHistory lib1 = commandHistory lib" by (simp add: lib1_def say_def)
  obtain out lib' where r: "route (remember lib1 cmd) cmd = (out, lib')"
    by (cases "route (remember lib1 cmd) cmd")
  have run: "runCommand lib (''!'' @ showNat n) = Some (out, lib')"
    using a runCommand_stored[OF st, of lib1] r by (simp add: lib1_def)
  have ne: "commandHistory lib \<noteq> []" using mem by auto
  have "commandHistory lib' = commandHistory (remember lib1 cmd)"
    using route_history[of "remember lib1 cmd" cmd] r by simp
  also have "\<dots> = (if last (commandHistory lib) = cmd then commandHistory lib
                     else commandHistory lib @ [cmd])"
    using ne by (simp add: remember_history h1)
  finally have "commandHistory lib'
                = (if last (commandHistory lib) = cmd then commandHistory lib
                   else commandHistory lib @ [cmd])" .
  with run a show ?thesis by blast
qed

theorem recall_replays_and_stores_witness:
  "commandHistory twoCommandsLib = [''pwd'', ''ls''] \<and> stored ''pwd'' \<and> stored ''ls'' \<and>
   (1::nat) \<le> 2 \<and> 2 \<le> length (commandHistory twoCommandsLib) \<and>
   ''ls'' = commandHistory twoCommandsLib ! (2 - 1) \<and>
   ''!'' @ showNat 2 = ''!2'' \<and>
   (\<exists>out lib'. runCommand twoCommandsLib ''!2'' = Some (out, lib') \<and>
               commandHistory lib' = [''pwd'', ''ls''])"
proof -
  have c: "commandHistory twoCommandsLib = [''pwd'', ''ls'']" by code_simp
  have s: "stored ''pwd''" "stored ''ls''" by code_simp+
  have h1: "\<forall>e\<in>set (commandHistory twoCommandsLib). stored e" using s by (simp add: c)
  have h2: "(1::nat) \<le> 2" "2 \<le> length (commandHistory twoCommandsLib)" by (simp_all add: c)
  have h3: "''ls'' = commandHistory twoCommandsLib ! (2 - 1)" by (simp add: c)
  have line: "''!'' @ showNat 2 = ''!2''" by (simp add: showNat_small)
  from recall_replays_and_stores[OF h1 h2 h3]
  obtain out lib' where run: "runCommand twoCommandsLib (''!'' @ showNat 2) = Some (out, lib')"
    and hist: "commandHistory lib'
               = (if last (commandHistory twoCommandsLib) = ''ls'' then commandHistory twoCommandsLib
                  else commandHistory twoCommandsLib @ [''ls''])"
    by blast
  from run have run': "runCommand twoCommandsLib ''!2'' = Some (out, lib')"
    by (simp only: line)
  from hist have hist': "commandHistory lib' = [''pwd'', ''ls'']"
    by (simp add: c)
  from run' hist' have "\<exists>out lib'. runCommand twoCommandsLib ''!2'' = Some (out, lib') \<and>
               commandHistory lib' = [''pwd'', ''ls'']" by blast
  with c s h2 h3 line show ?thesis by blast
qed

text \<open>
  C2 as the specification states it fails: after the inputs \<^verbatim>\<open>pwd\<close> and \<^verbatim>\<open>ls\<close>, the input \<^verbatim>\<open>!1\<close>
  appends a second copy of \<^verbatim>\<open>pwd\<close> to the command history.
\<close>

theorem recall_stores_again_counterexample:
  "runAll demoLib [''pwd'', ''ls''] = Some twoCommandsLib \<and>
   commandHistory twoCommandsLib = [''pwd'', ''ls''] \<and>
   (\<exists>out lib'. runCommand twoCommandsLib ''!1'' = Some (out, lib') \<and>
               commandHistory lib' = [''pwd'', ''ls'', ''pwd''])"
proof -
  have c: "commandHistory twoCommandsLib = [''pwd'', ''ls'']" by code_simp
  have bang: "startsWith (trim ''!1'') ''!''" by code_simp
  have rec: "recalled (commandHistory twoCommandsLib) (trim ''!1'') = Some ''pwd''" by code_simp
  have st: "stored ''pwd''" by code_simp
  obtain out lib' where r:
    "route (remember (say twoCommandsLib (''> '' @ ''pwd'')) ''pwd'') ''pwd'' = (out, lib')"
    by (cases "route (remember (say twoCommandsLib (''> '' @ ''pwd'')) ''pwd'') ''pwd''")
  have "commandHistory lib'
        = commandHistory (remember (say twoCommandsLib (''> '' @ ''pwd'')) ''pwd'')"
    using route_history[of "remember (say twoCommandsLib (''> '' @ ''pwd'')) ''pwd''" "''pwd''"] r
    by simp
  also have "\<dots> = [''pwd'', ''ls'', ''pwd'']"
    by (simp add: remember_history say_def c)
  finally have h: "commandHistory lib' = [''pwd'', ''ls'', ''pwd'']" .
  have "runCommand twoCommandsLib ''!1'' = Some (out, lib')"
    using runCommand_recall[OF bang rec] runCommand_stored[OF st] r by simp
  with h runAll_pwd_ls c show ?thesis by blast
qed

subsection \<open>Full paths\<close>

lemma descend_append:
  "descend n (ps @ qs) = (case descend n ps of Some m \<Rightarrow> descend m qs | None \<Rightarrow> None)"
  by (induction ps arbitrary: n) (auto split: option.splits)

lemma descend_snoc:
  "descend n (ps @ [k]) = Some c \<Longrightarrow>
   \<exists>d. descend n ps = Some d \<and> map_of (children d) k = Some c"
  by (auto simp: descend_append split: option.splits)

lemma refs_child: "(k, c) \<in> set cs \<Longrightarrow> set (refs c) \<subseteq> set (refsIn cs)"
  by (induction cs) auto

lemma distinct_child: "(k, c) \<in> set cs \<Longrightarrow> distinct (refsIn cs) \<Longrightarrow> distinct (refs c)"
  by (induction cs) auto

lemma descend_refs:
  "descend D ps = Some n \<Longrightarrow> ps \<noteq> [] \<Longrightarrow> ref n \<in> set (refsIn (children D))"
proof (induction ps arbitrary: D)
  case Nil
  then show ?case by simp
next
  case (Cons k ks)
  from Cons.prems(1) obtain c where c: "map_of (children D) k = Some c" and d: "descend c ks = Some n"
    by (auto split: option.splits)
  from c have mem: "(k, c) \<in> set (children D)" by (rule map_of_SomeD)
  show ?case
  proof (cases "ks = []")
    case True
    with d have "n = c" by simp
    with refs_child[OF mem] ref_in_refs[of c] show ?thesis by blast
  next
    case False
    from Cons.IH[OF d False] have "ref n \<in> set (refs c)" by (simp add: refs_unfold[of c])
    with refs_child[OF mem] show ?thesis by blast
  qed
qed

lemma descend_distinct: "descend D ps = Some n \<Longrightarrow> distinct (refs D) \<Longrightarrow> distinct (refs n)"
proof (induction ps arbitrary: D)
  case Nil
  then show ?case by simp
next
  case (Cons k ks)
  from Cons.prems(1) obtain c where c: "map_of (children D) k = Some c" and d: "descend c ks = Some n"
    by (auto split: option.splits)
  from c have mem: "(k, c) \<in> set (children D)" by (rule map_of_SomeD)
  from Cons.prems(2) have "distinct (refsIn (children D))" by (simp add: refs_unfold[of D])
  from distinct_child[OF mem this] Cons.IH[OF d] show ?case by blast
qed

lemma descend_keyed: "descend D ps = Some n \<Longrightarrow> keyed D \<Longrightarrow> keyed n"
proof (induction ps arbitrary: D)
  case Nil
  then show ?case by simp
next
  case (Cons k ks)
  from Cons.prems(1) obtain c where c: "map_of (children D) k = Some c" and d: "descend c ks = Some n"
    by (auto split: option.splits)
  from c have mem: "(k, c) \<in> set (children D)" by (rule map_of_SomeD)
  have "keyedIn cs \<Longrightarrow> (k, c) \<in> set cs \<Longrightarrow> keyed c" for cs
    by (induction cs) auto
  moreover have "keyedIn (children D)" using Cons.prems(2) by (cases D) simp_all
  ultimately have "keyed c" using mem by blast
  with Cons.IH[OF d] show ?case .
qed

lemma keyed_child_name: "keyed D \<Longrightarrow> map_of (children D) k = Some c \<Longrightarrow> name c = k"
proof -
  assume kd: "keyed D" and m: "map_of (children D) k = Some c"
  have "keyedIn cs \<Longrightarrow> (k, c) \<in> set cs \<Longrightarrow> name c = k" for cs
    by (induction cs) auto
  moreover have "keyedIn (children D)" using kd by (cases D) simp_all
  ultimately show ?thesis using map_of_SomeD[OF m] by blast
qed

text \<open>The search of \<^verbatim>\<open>_getParent\<close> finds the directory that holds the node.\<close>

lemma findParent_absent:
  "t \<notin> set (refsIn (children c)) \<Longrightarrow> findParent c t = None"
  using findParent_Some(1)[of c t] by (cases "findParent c t") auto

lemma findParentIn_direct:
  "(k, n) \<in> set cs \<Longrightarrow> distinct (refsIn cs) \<Longrightarrow> findParentIn D cs (ref n) = Some D"
proof (induction cs)
  case Nil
  then show ?case by simp
next
  case (Cons kc rest)
  show ?case
  proof (cases "ref (snd kc) = ref n")
    case True
    then show ?thesis by simp
  next
    case False
    then have "kc \<noteq> (k, n)" by auto
    with Cons.prems(1) have mem: "(k, n) \<in> set rest" by simp
    from refs_child[OF mem] ref_in_refs[of n] have inrest: "ref n \<in> set (refsIn rest)" by blast
    with Cons.prems(2) have "ref n \<notin> set (refs (snd kc))" by auto
    then have "ref n \<notin> set (refsIn (children (snd kc)))" by (simp add: refs_unfold[of "snd kc"])
    then have none: "findParent (snd kc) (ref n) = None" by (rule findParent_absent)
    from Cons.prems(2) have "distinct (refsIn rest)" by simp
    from Cons.IH[OF mem this] False none show ?thesis by simp
  qed
qed

lemma findParentIn_deeper:
  assumes "(q, c) \<in> set cs" and "distinct (refsIn cs)"
    and "t \<in> set (refsIn (children c))"
    and "findParent c t = Some d"
  shows "findParentIn D cs t = Some d"
  using assms(1,2)
proof (induction cs)
  case Nil
  then show ?case by simp
next
  case (Cons kc rest)
  have tc: "t \<in> set (refs c)" using assms(3) by (simp add: refs_unfold[of c])
  show ?case
  proof (cases "snd kc = c")
    case True
    from Cons.prems(2) have "distinct (refs c)" using True by simp
    then have neq: "ref c \<noteq> t" using assms(3) by (auto simp: refs_unfold[of c])
    have dir: "isVDirectory c" using assms(3) by (cases c) simp_all
    from True neq dir assms(4) show ?thesis by simp
  next
    case False
    with Cons.prems(1) have mem: "(q, c) \<in> set rest" by auto
    from refs_child[OF mem] tc have inrest: "t \<in> set (refsIn rest)" by blast
    with Cons.prems(2) have notin: "t \<notin> set (refs (snd kc))" by auto
    then have neq: "ref (snd kc) \<noteq> t" using ref_in_refs[of "snd kc"] by auto
    from notin have "t \<notin> set (refsIn (children (snd kc)))" by (simp add: refs_unfold[of "snd kc"])
    then have none: "findParent (snd kc) t = None" by (rule findParent_absent)
    from Cons.prems(2) have "distinct (refsIn rest)" by simp
    from Cons.IH[OF mem this] neq none show ?thesis by simp
  qed
qed

lemma findParent_unfold: "findParent D t = findParentIn D (children D) t"
  by (cases D) simp_all

lemma findParent_descend:
  "distinct (refs D) \<Longrightarrow> descend D (qs @ [k]) = Some n \<Longrightarrow> descend D qs = Some d \<Longrightarrow>
   findParent D (ref n) = Some d"
proof (induction qs arbitrary: D)
  case Nil
  then have d: "d = D" and m: "map_of (children D) k = Some n"
    by (auto split: option.splits)
  from Nil.prems(1) have dist: "distinct (refsIn (children D))" by (simp add: refs_unfold[of D])
  from findParentIn_direct[OF map_of_SomeD[OF m] dist, of D] d
  show ?case by (simp add: findParent_unfold)
next
  case (Cons q qs)
  from Cons.prems(3) obtain c where c: "map_of (children D) q = Some c"
    and dq: "descend c qs = Some d"
    by (auto split: option.splits)
  from Cons.prems(2) c have dn: "descend c (qs @ [k]) = Some n" by simp
  from c have mem: "(q, c) \<in> set (children D)" by (rule map_of_SomeD)
  from Cons.prems(1) have dist: "distinct (refsIn (children D))" by (simp add: refs_unfold[of D])
  from distinct_child[OF mem dist] have distc: "distinct (refs c)" .
  from Cons.IH[OF distc dn dq] have fp: "findParent c (ref n) = Some d" .
  from descend_refs[OF dn] have inc: "ref n \<in> set (refsIn (children c))" by simp
  from findParentIn_deeper[OF mem dist inc fp, of D]
  show ?case by (simp add: findParent_unfold)
qed

lemma fullPathLoop_descend:
  assumes wf: "wellFormed s"
  shows "descend (root s) ps = Some n \<Longrightarrow>
         fullPathLoop s (Some n) acc = concat (map (\<lambda>seg. ''/'' @ seg) ps) @ acc"
proof (induction ps arbitrary: n acc rule: rev_induct)
  case Nil
  then show ?case by (simp add: fullPathLoop.simps)
next
  case (snoc k qs)
  from wf have dist: "distinct (refs (root s))" and keyd: "keyed (root s)"
    by (simp_all add: wellFormed_def)
  from descend_snoc[OF snoc.prems] obtain d where d: "descend (root s) qs = Some d"
    and m: "map_of (children d) k = Some n"
    by blast
  from descend_refs[OF snoc.prems] have "ref n \<in> set (refsIn (children (root s)))" by simp
  with dist have neq: "ref n \<noteq> ref (root s)" by (auto simp: refs_unfold[of "root s"])
  from findParent_descend[OF dist snoc.prems d] neq
  have par: "getParent s (Node n) = Some d" by simp
  from keyed_child_name[OF descend_keyed[OF d keyd] m] have nm: "name n = k" .
  have "fullPathLoop s (Some n) acc = fullPathLoop s (Some d) (''/'' @ k @ acc)"
    using neq par nm by (simp add: fullPathLoop.simps(2)[of s n])
  also have "\<dots> = concat (map (\<lambda>seg. ''/'' @ seg) qs) @ ''/'' @ k @ acc"
    using snoc.IH[OF d] .
  finally show ?case by simp
qed

lemma getFullPath_descend:
  assumes wf: "wellFormed s" and d: "descend (root s) ps = Some n"
  shows "getFullPath s n = render ps"
proof (cases "ps = []")
  case True
  with d show ?thesis by (simp add: getFullPath_def render_def)
next
  case False
  from wf have dist: "distinct (refs (root s))" by (simp add: wellFormed_def)
  from descend_refs[OF d False] have "ref n \<in> set (refsIn (children (root s)))" .
  with dist have neq: "ref n \<noteq> ref (root s)" by (auto simp: refs_unfold[of "root s"])
  from False obtain q qs where ps: "ps = q # qs" by (cases ps) auto
  have loop: "fullPathLoop s (Some n) [] = concat (map (\<lambda>seg. ''/'' @ seg) ps)"
    using fullPathLoop_descend[OF wf d, of "[]"] by (simp only: append_Nil2)
  have ne: "concat (map (\<lambda>seg. ''/'' @ seg) ps) \<noteq> []" by (simp add: ps)
  have "getFullPath s n = orElse (fullPathLoop s (Some n) []) ''/''"
    using neq by (simp only: getFullPath_def if_False)
  also have "\<dots> = orElse (concat (map (\<lambda>seg. ''/'' @ seg) ps)) ''/''"
    by (simp only: loop)
  also have "\<dots> = concat (map (\<lambda>seg. ''/'' @ seg) ps)"
    using ne by (simp only: orElse_def if_False)
  also have "\<dots> = render ps"
    using False by (simp only: render_def if_False)
  finally show ?thesis .
qed

text \<open>The walk of \<^verbatim>\<open>_resolvePath\<close> over real segment names descends through children.\<close>

lemma walk_real_Inherited:
  "\<forall>seg\<in>set parts. seg \<noteq> ''.'' \<and> seg \<noteq> ''..'' \<Longrightarrow> walk s parts (Inherited k) \<noteq> Node n"
  by (cases parts) simp_all

lemma walk_real_descend:
  "\<forall>seg\<in>set parts. seg \<noteq> ''.'' \<and> seg \<noteq> ''..'' \<Longrightarrow> walk s parts (Node c) = Node n \<Longrightarrow>
   descend c parts = Some n"
proof (induction parts arbitrary: c)
  case Nil
  then show ?case by simp
next
  case (Cons part parts)
  from Cons.prems(1) have real: "part \<noteq> ''.''" "part \<noteq> ''..''"
    and rest: "\<forall>seg\<in>set parts. seg \<noteq> ''.'' \<and> seg \<noteq> ''..''"
    by simp_all
  from Cons.prems(2) real
  have step: "isVDirectory c \<and> truthy (getChild c part)"
    and w: "walk s parts (getChild c part) = Node n"
    by (auto split: if_splits)
  show ?case
  proof (cases "map_of (children c) part")
    case None
    with step have "getChild c part = Inherited part"
      by (auto simp: getChild_def split: if_splits)
    with w walk_real_Inherited[OF rest, of s part n] show ?thesis by simp
  next
    case (Some c')
    then have "getChild c part = Node c'" by (simp add: getChild_def)
    with w Cons.IH[OF rest] have "descend c' parts = Some n" by simp
    with Some show ?thesis by simp
  qed
qed

text \<open>The reference \<^verbatim>\<open>this.cwd\<close> and the names that lead to it.\<close>

lemma lookupRef_pathTo:
  "lookupRef D x = Some c \<Longrightarrow> keyed D \<Longrightarrow>
   \<exists>ps. pathTo D x = Some ps \<and> descend D ps = Some c"
  "lookupRefIn cs x = Some c \<Longrightarrow> distinct (map fst cs) \<Longrightarrow> keyedIn cs \<Longrightarrow>
   \<exists>k ps c0. pathToIn cs x = Some (k # ps) \<and> map_of cs k = Some c0 \<and> descend c0 ps = Some c"
proof (induction D x and cs x rule: lookupRef_lookupRefIn.induct)
  case (1 r n ct t x)
  then have "r = x" and "c = VFile r n ct t" by (auto split: if_splits)
  then have "pathTo (VFile r n ct t) x = Some [] \<and> descend (VFile r n ct t) [] = Some c"
    by simp
  then show ?case by blast
next
  case (2 r n cs x)
  show ?case
  proof (cases "r = x")
    case True
    with "2.prems" have "c = VDirectory r n cs" by simp
    with True have "pathTo (VDirectory r n cs) x = Some [] \<and> descend (VDirectory r n cs) [] = Some c"
      by simp
    then show ?thesis by blast
  next
    case False
    with "2.prems" have l: "lookupRefIn cs x = Some c" and dk: "distinct (map fst cs)"
      and kin: "keyedIn cs"
      by simp_all
    from "2.IH"[OF False l dk kin] False show ?thesis by auto
  qed
next
  case (3 x)
  then show ?case by simp
next
  case (4 kc rest x)
  from "4.prems" have kd: "keyed (snd kc)" and kr: "keyedIn rest"
    and dr: "distinct (map fst rest)" and fresh: "fst kc \<notin> fst ` set rest"
    by simp_all
  show ?case
  proof (cases "lookupRef (snd kc) x")
    case (Some f)
    with "4.prems"(1) have "f = c" by simp
    with "4.IH"(1)[OF _ kd] Some obtain ps where "pathTo (snd kc) x = Some ps"
      and "descend (snd kc) ps = Some c"
      by auto
    then show ?thesis by auto
  next
    case None
    with "4.prems"(1) have l: "lookupRefIn rest x = Some c" by simp
    have pn: "pathTo (snd kc) x = None"
    proof (cases "pathTo (snd kc) x")
      case None
      then show ?thesis .
    next
      case (Some ps)
      have "pathTo D y = Some qs \<Longrightarrow> lookupRef D y \<noteq> None"
        "pathToIn ds y = Some qs \<Longrightarrow> lookupRefIn ds y \<noteq> None" for D ds y qs
        by (induction D y and ds y arbitrary: qs and qs rule: pathTo_pathToIn.induct)
           (auto split: if_splits option.splits)
      from this(1)[OF Some] None show ?thesis by simp
    qed
    from "4.IH"(2)[OF None l dr kr] obtain k ps c0 where p: "pathToIn rest x = Some (k # ps)"
      and m: "map_of rest k = Some c0" and d: "descend c0 ps = Some c"
      by blast
    from m have "k \<in> fst ` set rest" by (metis domI dom_map_of_conv_image_fst)
    with fresh have "fst kc \<noteq> k" by auto
    with m have "map_of (kc # rest) k = Some c0" by (cases kc) simp
    with p d pn show ?thesis by auto
  qed
qed

lemma thisCwd_descend:
  assumes "wellFormed s" and "thisCwd s = Node c"
  shows "descend (root s) (cwdSegments s) = Some c"
proof -
  from assms(2) have l: "lookupRef (root s) (cwd s) = Some c"
    by (auto simp: thisCwd_def split: option.splits)
  from assms(1) have "keyed (root s)" by (simp add: wellFormed_def)
  from lookupRef_pathTo(1)[OF l this] show ?thesis by (auto simp: cwdSegments_def)
qed

text \<open>
  C7. In a well-formed file system, as every one that the constructor and the operations
  of \<^verbatim>\<open>VirtualOS\<close> build is (\<open>wellFormed_reachable\<close> below), for every path whose segments
  are all names (none is \<^verbatim>\<open>.\<close> or \<^verbatim>\<open>..\<close>) and that resolves to a node, \<^verbatim>\<open>_getFullPath\<close> of
  that node, which walks the parents up to the root, is the normalized absolute form of
  the path.
\<close>

theorem fullPath_of_resolved:
  assumes wf: "wellFormed s"
    and real: "\<forall>seg\<in>set (segments p). seg \<noteq> ''.'' \<and> seg \<noteq> ''..''"
    and res: "resolvePath s p = Node n"
  shows "getFullPath s n = normalized s p"
proof (cases "p = ''/''")
  case True
  with res have "n = root s" by (simp add: resolvePath_def)
  then show ?thesis
    using True by (simp add: getFullPath_def normalized_def render_def segments_def startsWith_def)
next
  case False
  show ?thesis
  proof (cases "startsWith p ''/''")
    case True
    with res False have "walk s (segments p) (Node (root s)) = Node n"
      by (simp add: resolvePath_def)
    from walk_real_descend[OF real this] have "descend (root s) (segments p) = Some n" .
    from getFullPath_descend[OF wf this] True show ?thesis by (simp add: normalized_def)
  next
    case rel: False
    with res False have w: "walk s (segments p) (thisCwd s) = Node n"
      by (simp add: resolvePath_def)
    obtain c where c: "thisCwd s = Node c"
    proof (cases "thisCwd s")
      case Null
      with w show ?thesis by (simp add: walk_Null)
    next
      case (Node c)
      then show ?thesis by (rule that)
    next
      case (Inherited k)
      then show ?thesis by (simp add: thisCwd_def split: option.splits)
    qed
    from w c walk_real_descend[OF real] have d1: "descend c (segments p) = Some n" by simp
    from thisCwd_descend[OF wf c] have d0: "descend (root s) (cwdSegments s) = Some c" .
    from d0 d1 have "descend (root s) (cwdSegments s @ segments p) = Some n"
      by (simp add: descend_append)
    from getFullPath_descend[OF wf this] rel show ?thesis by (simp add: normalized_def)
  qed
qed

theorem fullPath_of_resolved_witness:
  "wellFormed cdVOS \<and> segments ''Users'' = [''Users''] \<and>
   resolvePath cdVOS ''Users'' = Node (VDirectory 2 ''Users'' []) \<and>
   normalized cdVOS ''Users'' = ''/C/Users'' \<and>
   getFullPath cdVOS (VDirectory 2 ''Users'' []) = ''/C/Users''"
proof -
  have h1: "wellFormed cdVOS" by code_simp
  have segs: "segments ''Users'' = [''Users'']" by code_simp
  have h2: "\<forall>seg\<in>set (segments ''Users''). seg \<noteq> ''.'' \<and> seg \<noteq> ''..''"
    by (simp add: segs)
  have h3: "resolvePath cdVOS ''Users'' = Node (VDirectory 2 ''Users'' [])" by code_simp
  have n: "normalized cdVOS ''Users'' = ''/C/Users''" by code_simp
  from fullPath_of_resolved[OF h1 h2 h3] n
  have "getFullPath cdVOS (VDirectory 2 ''Users'' []) = ''/C/Users''" by simp
  with h1 segs h3 n show ?thesis by blast
qed

subsection \<open>Every file system the module builds is well formed\<close>

lemma subtrees_self: "n \<in> set (subtrees n)"
  by (cases n) simp_all

lemma subtrees_unfold: "subtrees n = n # subtreesIn (children n)"
  by (cases n) simp_all

lemma subtreesIn_member: "(k, c) \<in> set cs \<Longrightarrow> set (subtrees c) \<subseteq> set (subtreesIn cs)"
  by (induction cs) auto

lemma subtrees_trans:
  "c \<in> set (subtrees D) \<Longrightarrow> set (subtrees c) \<subseteq> set (subtrees D)"
  "c \<in> set (subtreesIn cs) \<Longrightarrow> set (subtrees c) \<subseteq> set (subtreesIn cs)"
proof (induction D and cs rule: subtrees_subtreesIn.induct)
  case (1 r n ct t)
  then show ?case by simp
next
  case (2 r n cs)
  then show ?case by auto
next
  case 3
  then show ?case by simp
next
  case (4 kc rest)
  then show ?case by auto
qed

lemma subtrees_child:
  "d \<in> set (subtrees D) \<Longrightarrow> map_of (children d) k = Some c \<Longrightarrow> c \<in> set (subtrees D)"
proof -
  assume d: "d \<in> set (subtrees D)" and m: "map_of (children d) k = Some c"
  from map_of_SomeD[OF m] subtreesIn_member subtrees_self[of c]
  have "c \<in> set (subtreesIn (children d))" by blast
  then have "c \<in> set (subtrees d)" by (simp add: subtrees_unfold[of d])
  with subtrees_trans(1)[OF d] show ?thesis by blast
qed

lemma findParent_subtree:
  "findParent D t = Some d \<Longrightarrow> d \<in> set (subtrees D)"
  "findParentIn dir cs t = Some d \<Longrightarrow> d = dir \<or> d \<in> set (subtreesIn cs)"
proof (induction D t and dir cs t rule: findParent_findParentIn.induct)
  case (1 r n c t target)
  then show ?case by simp
next
  case (2 r n cs target)
  then show ?case by auto
next
  case (3 dir target)
  then show ?case by simp
next
  case (4 dir kc rest target)
  then show ?case by (auto split: if_splits option.splits)
qed

lemma lookupRef_subtree:
  "lookupRef D x = Some c \<Longrightarrow> c \<in> set (subtrees D) \<and> ref c = x"
  "lookupRefIn cs x = Some c \<Longrightarrow> c \<in> set (subtreesIn cs) \<and> ref c = x"
proof (induction D x and cs x rule: lookupRef_lookupRefIn.induct)
  case (1 r n ct t x)
  then show ?case by (auto split: if_splits)
next
  case (2 r n cs x)
  then show ?case by (auto split: if_splits)
next
  case (3 x)
  then show ?case by simp
next
  case (4 kc rest x)
  then show ?case by (auto split: option.splits)
qed

lemma lookupRef_None:
  "x \<notin> set (refs D) \<Longrightarrow> lookupRef D x = None"
  "x \<notin> set (refsIn cs) \<Longrightarrow> lookupRefIn cs x = None"
  by (induction D x and cs x rule: lookupRef_lookupRefIn.induct) auto

lemma subtree_refs:
  "c \<in> set (subtrees D) \<Longrightarrow> set (refs c) \<subseteq> set (refs D)"
  "c \<in> set (subtreesIn cs) \<Longrightarrow> set (refs c) \<subseteq> set (refsIn cs)"
proof (induction D and cs rule: subtrees_subtreesIn.induct)
  case (1 r n ct t)
  then show ?case by simp
next
  case (2 r n cs)
  then show ?case by auto
next
  case 3
  then show ?case by simp
next
  case (4 kc rest)
  then show ?case by auto
qed

text \<open>In a tree of pairwise different references, a reference finds its node.\<close>

lemma lookupRef_of_subtree:
  "d \<in> set (subtrees D) \<Longrightarrow> distinct (refs D) \<Longrightarrow> lookupRef D (ref d) = Some d"
  "d \<in> set (subtreesIn cs) \<Longrightarrow> distinct (refsIn cs) \<Longrightarrow> lookupRefIn cs (ref d) = Some d"
proof (induction D and cs rule: subtrees_subtreesIn.induct)
  case (1 r n ct t)
  then show ?case by simp
next
  case (2 r n cs)
  show ?case
  proof (cases "d = VDirectory r n cs")
    case True
    then show ?thesis by simp
  next
    case False
    with "2.prems" have mem: "d \<in> set (subtreesIn cs)" by simp
    from "2.prems" have dist: "distinct (refsIn cs)" and r: "r \<notin> set (refsIn cs)" by simp_all
    from subtree_refs(2)[OF mem] ref_in_refs[of d] r have "ref d \<noteq> r" by auto
    with "2.IH"[OF mem dist] show ?thesis by simp
  qed
next
  case 3
  then show ?case by simp
next
  case (4 kc rest)
  from "4.prems" have d1: "distinct (refs (snd kc))" and d2: "distinct (refsIn rest)"
    and disj: "set (refs (snd kc)) \<inter> set (refsIn rest) = {}"
    by simp_all
  show ?case
  proof (cases "d \<in> set (subtrees (snd kc))")
    case True
    from "4.IH"(1)[OF True d1] show ?thesis by simp
  next
    case False
    with "4.prems" have mem: "d \<in> set (subtreesIn rest)" by simp
    from subtree_refs(2)[OF mem] ref_in_refs[of d] disj
    have "ref d \<notin> set (refs (snd kc))" by auto
    then have "lookupRef (snd kc) (ref d) = None" by (rule lookupRef_None)
    with "4.IH"(2)[OF mem d2] show ?thesis by simp
  qed
qed

text \<open>What \<^verbatim>\<open>_resolvePath\<close> returns, if a node, is a node of the tree.\<close>

lemma walk_subtree:
  "walk s parts current = Node n \<Longrightarrow>
   (\<And>c. current = Node c \<Longrightarrow> c \<in> set (subtrees (root s))) \<Longrightarrow>
   n \<in> set (subtrees (root s))"
proof (induction parts arbitrary: current)
  case Nil
  then show ?case by simp
next
  case (Cons part parts)
  show ?case
  proof (cases "part = ''..''")
    case True
    define nxt where "nxt = (case getParent s current of Some p \<Rightarrow> Node p | None \<Rightarrow> current)"
    from Cons.prems(1) True have w: "walk s parts nxt = Node n" by (simp add: nxt_def)
    have "c \<in> set (subtrees (root s))" if "nxt = Node c" for c
    proof (cases "getParent s current")
      case None
      with that have "current = Node c" by (simp add: nxt_def)
      then show ?thesis by (rule Cons.prems(2))
    next
      case (Some p)
      with that have pc: "p = c" by (simp add: nxt_def)
      from Some obtain m where "current = Node m" by (cases current) auto
      with Some have "findParent (root s) (ref m) = Some p" by (auto split: if_splits)
      from findParent_subtree(1)[OF this] pc show ?thesis by simp
    qed
    from Cons.IH[OF w this] show ?thesis .
  next
    case notup: False
    show ?thesis
    proof (cases "part = ''.''")
      case True
      with Cons.prems(1) have "walk s parts current = Node n" by simp
      from Cons.IH[OF this Cons.prems(2)] show ?thesis .
    next
      case False
      from Cons.prems(1) notup False obtain d where cur: "current = Node d"
        and w: "walk s parts (getChild d part) = Node n"
        by (cases current) (auto split: if_splits)
      have "c \<in> set (subtrees (root s))" if "getChild d part = Node c" for c
      proof -
        from that have "map_of (children d) part = Some c"
          by (auto simp: getChild_def split: option.splits if_splits)
        from subtrees_child[OF Cons.prems(2)[OF cur] this] show ?thesis .
      qed
      from Cons.IH[OF w this] show ?thesis .
    qed
  qed
qed

lemma resolvePath_subtree:
  assumes "resolvePath s p = Node n"
  shows "n \<in> set (subtrees (root s))"
proof (cases "p = ''/''")
  case True
  with assms show ?thesis by (simp add: resolvePath_def subtrees_self)
next
  case False
  with assms have w: "walk s (segments p)
      (if startsWith p ''/'' then Node (root s) else thisCwd s) = Node n"
    by (simp add: resolvePath_def)
  have "c \<in> set (subtrees (root s))"
    if "(if startsWith p ''/'' then Node (root s) else thisCwd s) = Node c" for c
  proof (cases "startsWith p ''/''")
    case True
    with that show ?thesis by (simp add: subtrees_self)
  next
    case False
    with that have "lookupRef (root s) (cwd s) = Some c"
      by (auto simp: thisCwd_def split: option.splits)
    from lookupRef_subtree(1)[OF this] show ?thesis by simp
  qed
  from walk_subtree[OF w this] show ?thesis .
qed

lemma updateAt_ref: "ref (updateAt r f D) = ref D"
  by (cases D) simp_all

lemma updateAt_name: "name (updateAt r f D) = name D"
  by (cases D) simp_all

lemma updateAtIn_keys: "map fst (updateAtIn r f cs) = map fst cs"
  by (induction cs) simp_all

lemma updateAt_absent:
  "r \<notin> set (refs D) \<Longrightarrow> updateAt r f D = D"
  "r \<notin> set (refsIn cs) \<Longrightarrow> updateAtIn r f cs = cs"
  by (induction r f D and r f cs rule: updateAt_updateAtIn.induct) auto

lemma dirRefs_subset_refs:
  "set (dirRefs D) \<subseteq> set (refs D)"
  "set (dirRefsIn cs) \<subseteq> set (refsIn cs)"
  by (induction D and cs rule: dirRefs_dirRefsIn.induct) auto

lemma updateAt_tidy:
  "distinct (refs D) \<Longrightarrow> keyed D \<Longrightarrow> E \<inter> set (refs D) = {} \<Longrightarrow>
   (\<And>d. lookupRef D r = Some d \<Longrightarrow> tidy f E (children d)) \<Longrightarrow>
   distinct (refs (updateAt r f D)) \<and> keyed (updateAt r f D) \<and>
   set (refs (updateAt r f D)) \<subseteq> set (refs D) \<union> E \<and>
   set (dirRefs D) \<subseteq> set (dirRefs (updateAt r f D))"
  "distinct (refsIn cs) \<Longrightarrow> distinct (map fst cs) \<Longrightarrow> keyedIn cs \<Longrightarrow> E \<inter> set (refsIn cs) = {} \<Longrightarrow>
   (\<And>d. lookupRefIn cs r = Some d \<Longrightarrow> tidy f E (children d)) \<Longrightarrow>
   distinct (refsIn (updateAtIn r f cs)) \<and> keyedIn (updateAtIn r f cs) \<and>
   set (refsIn (updateAtIn r f cs)) \<subseteq> set (refsIn cs) \<union> E \<and>
   set (dirRefsIn cs) \<subseteq> set (dirRefsIn (updateAtIn r f cs))"
proof (induction r f D and r f cs rule: updateAt_updateAtIn.induct)
  case (1 r f r' n c t)
  then show ?case by simp
next
  case (2 r f r' n cs)
  show ?case
  proof (cases "r' = r")
    case True
    then have "lookupRef (VDirectory r' n cs) r = Some (VDirectory r' n cs)" by simp
    from "2.prems"(4)[OF this] have t: "tidy f E cs" by simp
    from "2.prems"(1,3) have "r' \<notin> set (refsIn cs)" "r' \<notin> E" by auto
    with t True show ?thesis by (auto simp: tidy_def)
  next
    case False
    from "2.prems" False have
      "distinct (refsIn cs)" "distinct (map fst cs)" "keyedIn cs" "E \<inter> set (refsIn cs) = {}"
      "\<And>d. lookupRefIn cs r = Some d \<Longrightarrow> tidy f E (children d)"
      by auto
    from "2.IH"[OF False this]
    have ih: "distinct (refsIn (updateAtIn r f cs))" "keyedIn (updateAtIn r f cs)"
      "set (refsIn (updateAtIn r f cs)) \<subseteq> set (refsIn cs) \<union> E"
      "set (dirRefsIn cs) \<subseteq> set (dirRefsIn (updateAtIn r f cs))"
      by simp_all
    from "2.prems"(1,3) have "r' \<notin> set (refsIn cs)" "r' \<notin> E" by auto
    with ih(3) have "r' \<notin> set (refsIn (updateAtIn r f cs))" by auto
    with ih False "2.prems"(2) show ?thesis by (auto simp: updateAtIn_keys)
  qed
next
  case (3 r f)
  then show ?case by simp
next
  case (4 r f kc rest)
  from "4.prems" have d1: "distinct (refs (snd kc))" and d2: "distinct (refsIn rest)"
    and disj: "set (refs (snd kc)) \<inter> set (refsIn rest) = {}"
    and k1: "keyed (snd kc)" and k2: "keyedIn rest" and nm: "name (snd kc) = fst kc"
    and dk: "distinct (map fst rest)"
    and e1: "E \<inter> set (refs (snd kc)) = {}" and e2: "E \<inter> set (refsIn rest) = {}"
    by auto
  show ?case
  proof (cases "r \<in> set (refs (snd kc))")
    case True
    with disj have "r \<notin> set (refsIn rest)" by auto
    then have rest: "updateAtIn r f rest = rest" by (rule updateAt_absent)
    have "tidy f E (children d)" if "lookupRef (snd kc) r = Some d" for d
      using "4.prems"(5)[of d] that by simp
    from "4.IH"(1)[OF d1 k1 e1 this]
    have ih: "distinct (refs (updateAt r f (snd kc)))" "keyed (updateAt r f (snd kc))"
      "set (refs (updateAt r f (snd kc))) \<subseteq> set (refs (snd kc)) \<union> E"
      "set (dirRefs (snd kc)) \<subseteq> set (dirRefs (updateAt r f (snd kc)))"
      by simp_all
    from ih(3) disj e2 have "set (refs (updateAt r f (snd kc))) \<inter> set (refsIn rest) = {}"
      by auto
    with ih d2 k2 nm rest show ?thesis by (auto simp: updateAt_name)
  next
    case False
    then have head: "updateAt r f (snd kc) = snd kc" by (rule updateAt_absent)
    from False have none: "lookupRef (snd kc) r = None" by (rule lookupRef_None)
    have "tidy f E (children d)" if "lookupRefIn rest r = Some d" for d
      using "4.prems"(5)[of d] that none by simp
    from "4.IH"(2)[OF d2 dk k2 e2 this]
    have ih: "distinct (refsIn (updateAtIn r f rest))" "keyedIn (updateAtIn r f rest)"
      "set (refsIn (updateAtIn r f rest)) \<subseteq> set (refsIn rest) \<union> E"
      "set (dirRefsIn rest) \<subseteq> set (dirRefsIn (updateAtIn r f rest))"
      by simp_all
    from ih(3) disj e1 have "set (refs (snd kc)) \<inter> set (refsIn (updateAtIn r f rest)) = {}"
      by auto
    with ih d1 k1 nm head show ?thesis by auto
  qed
qed

lemma refsIn_append: "refsIn (xs @ ys) = refsIn xs @ refsIn ys"
  by (induction xs) simp_all

lemma dirRefsIn_append: "dirRefsIn (xs @ ys) = dirRefsIn xs @ dirRefsIn ys"
  by (induction xs) simp_all

lemma keyedIn_append: "keyedIn (xs @ ys) = (keyedIn xs \<and> keyedIn ys)"
  by (induction xs) auto

lemma assign_new_splits:
  assumes "k \<notin> fst ` set cs"
  shows "\<exists>xs ys. cs = xs @ ys \<and> assign k v cs = xs @ (k, v) # ys"
proof (cases "isArrayIndex k")
  case True
  with assms have "assign k v cs
      = takeWhile (indexBefore k) cs @ (k, v) # dropWhile (indexBefore k) cs"
    by (simp add: assign_def)
  moreover have "cs = takeWhile (indexBefore k) cs @ dropWhile (indexBefore k) cs" by simp
  ultimately show ?thesis by blast
next
  case False
  with assms have "assign k v cs = cs @ (k, v) # []" by (simp add: assign_def)
  moreover have "cs = cs @ []" by simp
  ultimately show ?thesis by blast
qed

lemma tidy_assign_new:
  assumes "map_of cs k = None" and "distinct (refsIn cs)" and "distinct (map fst cs)"
    and "keyedIn cs" and "name v = k" and "keyed v" and "distinct (refs v)"
    and "set (refs v) \<subseteq> E" and "E \<inter> set (refsIn cs) = {}"
  shows "tidy (assign k v) E cs"
proof -
  from assms(1) have nk: "k \<notin> fst ` set cs" by (simp add: map_of_eq_None_iff)
  from assign_new_splits[OF nk, of v] obtain xs ys
    where c: "cs = xs @ ys" and a: "assign k v cs = xs @ (k, v) # ys" by blast
  from assms(8,9) have "set (refsIn cs) \<inter> set (refs v) = {}" by auto
  with assms nk show ?thesis
    unfolding tidy_def a unfolding c
    by (auto simp: refsIn_append dirRefsIn_append keyedIn_append)
qed

lemma refsIn_filter: "set (refsIn (filter Q cs)) \<subseteq> set (refsIn cs)"
  by (induction cs) auto

lemma distinct_refsIn_filter: "distinct (refsIn cs) \<Longrightarrow> distinct (refsIn (filter Q cs))"
proof (induction cs)
  case Nil
  then show ?case by simp
next
  case (Cons kc rest)
  with refsIn_filter[of Q rest] show ?case by auto
qed

lemma keyedIn_filter: "keyedIn cs \<Longrightarrow> keyedIn (filter Q cs)"
  by (induction cs) auto

lemma dirRefsIn_delete_file:
  "map_of cs k = Some c \<Longrightarrow> isVFile c \<Longrightarrow> distinct (map fst cs) \<Longrightarrow>
   dirRefsIn (deleteKey k cs) = dirRefsIn cs"
proof (induction cs)
  case Nil
  then show ?case by simp
next
  case (Cons kc rest)
  show ?case
  proof (cases "fst kc = k")
    case True
    with Cons.prems(1) have c: "snd kc = c" by (cases kc) simp
    from True Cons.prems(3) have "k \<notin> fst ` set rest" by auto
    then have "filter (\<lambda>kc. fst kc \<noteq> k) rest = rest" by (auto simp: filter_id_conv)
    with True c Cons.prems(2) show ?thesis by (cases c) (simp_all add: deleteKey_def)
  next
    case False
    with Cons.prems(1) have "map_of rest k = Some c" by (cases kc) simp
    from Cons.IH[OF this Cons.prems(2)] Cons.prems(3) False show ?thesis
      by (simp add: deleteKey_def)
  qed
qed

lemma tidy_delete_file:
  assumes "map_of cs k = Some c" and "isVFile c" and "distinct (refsIn cs)"
    and "distinct (map fst cs)" and "keyedIn cs"
  shows "tidy (deleteKey k) E cs"
proof -
  have d: "dirRefsIn (deleteKey k cs) = dirRefsIn cs"
    by (rule dirRefsIn_delete_file[OF assms(1,2,4)])
  have r: "set (refsIn (deleteKey k cs)) \<subseteq> set (refsIn cs)"
    unfolding deleteKey_def by (rule refsIn_filter)
  have dr: "distinct (refsIn (deleteKey k cs))"
    unfolding deleteKey_def by (rule distinct_refsIn_filter[OF assms(3)])
  have dk: "distinct (map fst (deleteKey k cs))"
    unfolding deleteKey_def using assms(4) by (rule distinct_map_filter)
  have ki: "keyedIn (deleteKey k cs)"
    unfolding deleteKey_def by (rule keyedIn_filter[OF assms(5)])
  from d r dr dk ki show ?thesis unfolding tidy_def by auto
qed

lemma subtree_shape:
  "d \<in> set (subtrees D) \<Longrightarrow> distinct (refs D) \<Longrightarrow> keyed D \<Longrightarrow>
   distinct (refs d) \<and> keyed d"
  "d \<in> set (subtreesIn cs) \<Longrightarrow> distinct (refsIn cs) \<Longrightarrow> keyedIn cs \<Longrightarrow>
   distinct (refs d) \<and> keyed d"
  by (induction D and cs rule: subtrees_subtreesIn.induct) auto

lemma keyed_children: "keyed d \<Longrightarrow> distinct (map fst (children d)) \<and> keyedIn (children d)"
  by (cases d) simp_all

text \<open>The step of \<^verbatim>\<open>createFile\<close> and \<^verbatim>\<open>createDirectory\<close>: a new leaf under a resolved directory.\<close>

lemma sound_insert:
  assumes s: "sound s" and res: "resolvePath s p = Node d"
    and free: "\<not> truthy (getChild d k)"
    and leaf: "refs v = [nextRef s]" "name v = k" "keyed v"
  shows "sound (s\<lparr>root := updateAt (ref d) (assign k v) (root s), nextRef := Suc (nextRef s)\<rparr>)"
proof -
  from s have dist: "distinct (refs (root s))" and keyd: "keyed (root s)"
    and bound: "list_all (\<lambda>r. r < nextRef s) (refs (root s))"
    and cw: "cwd s \<in> set (dirRefs (root s))"
    by (simp_all add: sound_def wellFormed_def)
  from bound have fresh: "{nextRef s} \<inter> set (refs (root s)) = {}"
    by (auto simp: list_all_iff)
  from resolvePath_subtree[OF res] have sub: "d \<in> set (subtrees (root s))" .
  from lookupRef_of_subtree(1)[OF sub dist] have look: "lookupRef (root s) (ref d) = Some d" .
  from subtree_shape(1)[OF sub dist keyd] have dd: "distinct (refs d)" and kd: "keyed d"
    by simp_all
  from free have none: "map_of (children d) k = None"
    by (auto simp: getChild_def split: option.splits)
  from subtree_refs(1)[OF sub] fresh have "{nextRef s} \<inter> set (refs d) = {}" by auto
  then have fd: "{nextRef s} \<inter> set (refsIn (children d)) = {}" by (simp add: refs_unfold[of d])
  from dd have dc: "distinct (refsIn (children d))" by (simp add: refs_unfold[of d])
  from keyed_children[OF kd] have kc: "distinct (map fst (children d))" "keyedIn (children d)"
    by simp_all
  have t: "tidy (assign k v) {nextRef s} (children d)"
    using tidy_assign_new[OF none dc kc leaf(2,3) _ _ fd] leaf(1) by simp
  have "tidy (assign k v) {nextRef s} (children e)" if "lookupRef (root s) (ref d) = Some e" for e
    using that look t by simp
  from updateAt_tidy(1)[OF dist keyd fresh this]
  have r: "distinct (refs (updateAt (ref d) (assign k v) (root s)))"
    "keyed (updateAt (ref d) (assign k v) (root s))"
    "set (refs (updateAt (ref d) (assign k v) (root s))) \<subseteq> set (refs (root s)) \<union> {nextRef s}"
    "set (dirRefs (root s)) \<subseteq> set (dirRefs (updateAt (ref d) (assign k v) (root s)))"
    by simp_all
  from r(3) bound have "list_all (\<lambda>r. r < Suc (nextRef s)) (refs (updateAt (ref d) (assign k v) (root s)))"
    by (auto simp: list_all_iff less_Suc_eq)
  with r cw show ?thesis by (auto simp: sound_def wellFormed_def)
qed

lemma sound_createFile: "sound s \<Longrightarrow> sound (snd (createFile s path content type))"
proof -
  assume s: "sound s"
  define dirPath where "dirPath = orElse (join ''/'' (butlast (split CHR ''/'' path))) ''/''"
  define filename where "filename = last (split CHR ''/'' path)"
  show ?thesis
  proof (cases "resolvePath s dirPath")
    case (Node d)
    show ?thesis
    proof (cases "isVDirectory d \<and> \<not> truthy (getChild d filename)")
      case True
      then have free: "\<not> truthy (getChild d filename)" by simp
      have "sound (s\<lparr>root := updateAt (ref d)
                (assign filename (VFile (nextRef s) filename content type)) (root s),
              nextRef := Suc (nextRef s)\<rparr>)"
        by (rule sound_insert[OF s Node free]) simp_all
      with Node True show ?thesis
        by (simp add: createFile_def Let_def dirPath_def[symmetric] filename_def[symmetric])
    next
      case False
      with Node s show ?thesis
        by (auto simp: createFile_def Let_def dirPath_def[symmetric] filename_def[symmetric])
    qed
  qed (simp_all add: s createFile_def Let_def dirPath_def[symmetric])
qed

lemma sound_createDirectory: "sound s \<Longrightarrow> sound (snd (createDirectory s path))"
proof -
  assume s: "sound s"
  define parentPath where "parentPath = orElse (join ''/'' (butlast (split CHR ''/'' path))) ''/''"
  define dirname where "dirname = orElse (last (split CHR ''/'' path)) path"
  show ?thesis
  proof (cases "resolvePath s parentPath")
    case (Node d)
    show ?thesis
    proof (cases "isVDirectory d \<and> \<not> truthy (getChild d dirname)")
      case True
      then have free: "\<not> truthy (getChild d dirname)" by simp
      have "sound (s\<lparr>root := updateAt (ref d)
                (assign dirname (VDirectory (nextRef s) dirname [])) (root s),
              nextRef := Suc (nextRef s)\<rparr>)"
        by (rule sound_insert[OF s Node free]) simp_all
      with Node True show ?thesis
        by (simp add: createDirectory_def Let_def parentPath_def[symmetric] dirname_def[symmetric])
    next
      case False
      with Node s show ?thesis
        by (auto simp: createDirectory_def Let_def parentPath_def[symmetric] dirname_def[symmetric])
    qed
  qed (simp_all add: s createDirectory_def Let_def parentPath_def[symmetric])
qed

lemma sound_deleteFile: "sound s \<Longrightarrow> sound (snd (deleteFile s path))"
proof -
  assume s: "sound s"
  define dirPath where "dirPath = orElse (join ''/'' (butlast (split CHR ''/'' path))) ''/''"
  define filename where "filename = last (split CHR ''/'' path)"
  from s have dist: "distinct (refs (root s))" and keyd: "keyed (root s)"
    and bound: "list_all (\<lambda>r. r < nextRef s) (refs (root s))"
    and cw: "cwd s \<in> set (dirRefs (root s))"
    by (simp_all add: sound_def wellFormed_def)
  show ?thesis
  proof (cases "resolvePath s dirPath")
    case (Node d)
    show ?thesis
    proof (cases "isVDirectory d \<and> instanceofVFile (getChild d filename)")
      case True
      then obtain c where m: "map_of (children d) filename = Some c" and f: "isVFile c"
        by (auto simp: getChild_def split: option.splits if_splits)
      from resolvePath_subtree[OF Node] have sub: "d \<in> set (subtrees (root s))" .
      from lookupRef_of_subtree(1)[OF sub dist] have look: "lookupRef (root s) (ref d) = Some d" .
      from subtree_shape(1)[OF sub dist keyd] have dd: "distinct (refs d)" and kd: "keyed d"
        by simp_all
      from dd have dc: "distinct (refsIn (children d))" by (simp add: refs_unfold[of d])
      from keyed_children[OF kd] have kc: "distinct (map fst (children d))" "keyedIn (children d)"
        by simp_all
      have t: "tidy (deleteKey filename) {} (children d)"
        by (rule tidy_delete_file[OF m f dc kc])
      have "tidy (deleteKey filename) {} (children e)"
        if "lookupRef (root s) (ref d) = Some e" for e
        using that look t by simp
      from updateAt_tidy(1)[OF dist keyd _ this]
      have r: "distinct (refs (updateAt (ref d) (deleteKey filename) (root s)))"
        "keyed (updateAt (ref d) (deleteKey filename) (root s))"
        "set (refs (updateAt (ref d) (deleteKey filename) (root s))) \<subseteq> set (refs (root s))"
        "set (dirRefs (root s)) \<subseteq> set (dirRefs (updateAt (ref d) (deleteKey filename) (root s)))"
        by simp_all
      from r(3) bound
      have "list_all (\<lambda>r. r < nextRef s) (refs (updateAt (ref d) (deleteKey filename) (root s)))"
        by (auto simp: list_all_iff)
      with r cw have "sound (s\<lparr>root := updateAt (ref d) (deleteKey filename) (root s)\<rparr>)"
        by (auto simp: sound_def wellFormed_def)
      with Node True show ?thesis
        by (simp add: deleteFile_def Let_def dirPath_def[symmetric] filename_def[symmetric])
    next
      case False
      with Node s show ?thesis
        by (auto simp: deleteFile_def Let_def dirPath_def[symmetric] filename_def[symmetric])
    qed
  qed (simp_all add: s deleteFile_def Let_def dirPath_def[symmetric])
qed

lemma subtree_dirRefs:
  "d \<in> set (subtrees D) \<Longrightarrow> isVDirectory d \<Longrightarrow> ref d \<in> set (dirRefs D)"
  "d \<in> set (subtreesIn cs) \<Longrightarrow> isVDirectory d \<Longrightarrow> ref d \<in> set (dirRefsIn cs)"
  by (induction D and cs rule: subtrees_subtreesIn.induct) auto

lemma sound_changeDir: "sound s \<Longrightarrow> sound (snd (changeDir s path))"
proof -
  assume s: "sound s"
  show ?thesis
  proof (cases "resolvePath s path")
    case (Node d)
    show ?thesis
    proof (cases "isVDirectory d")
      case True
      from subtree_dirRefs(1)[OF resolvePath_subtree[OF Node] True] s Node True
      show ?thesis by (simp add: changeDir_def sound_def wellFormed_def)
    next
      case False
      with Node s show ?thesis by (simp add: changeDir_def)
    qed
  qed (simp_all add: s changeDir_def)
qed

lemma sound_newVirtualOS: "sound newVirtualOS"
  by code_simp

lemma sound_perform: "sound s \<Longrightarrow> sound (perform s op)"
  by (cases op) (simp_all add: sound_createFile sound_createDirectory sound_deleteFile sound_changeDir)

lemma sound_reachable: "sound (foldl perform newVirtualOS ops)"
proof (induction ops rule: rev_induct)
  case Nil
  show ?case by (simp add: sound_newVirtualOS)
next
  case (snoc op ops)
  then show ?case by (simp add: sound_perform)
qed

lemma wellFormed_reachable: "wellFormed (foldl perform newVirtualOS ops)"
  using sound_reachable[of ops] by (simp add: sound_def)

text \<open>In a sound file system \<^verbatim>\<open>this.cwd\<close> is a directory.\<close>

lemma lookupRef_dirRefs:
  "x \<in> set (dirRefs D) \<Longrightarrow> distinct (refs D) \<Longrightarrow>
   \<exists>d. lookupRef D x = Some d \<and> isVDirectory d"
  "x \<in> set (dirRefsIn cs) \<Longrightarrow> distinct (refsIn cs) \<Longrightarrow>
   \<exists>d. lookupRefIn cs x = Some d \<and> isVDirectory d"
proof (induction D x and cs x rule: lookupRef_lookupRefIn.induct)
  case (1 r n ct t x)
  then show ?case by simp
next
  case (2 r n cs x)
  then show ?case by auto
next
  case (3 x)
  then show ?case by simp
next
  case (4 kc rest x)
  from "4.prems" have d1: "distinct (refs (snd kc))" and d2: "distinct (refsIn rest)"
    and disj: "set (refs (snd kc)) \<inter> set (refsIn rest) = {}"
    by simp_all
  show ?case
  proof (cases "x \<in> set (dirRefs (snd kc))")
    case True
    from "4.IH"(1)[OF True d1] show ?thesis by auto
  next
    case False
    with "4.prems"(1) have mem: "x \<in> set (dirRefsIn rest)" by simp
    with dirRefs_subset_refs(2)[of rest] disj have "x \<notin> set (refs (snd kc))" by auto
    then have none: "lookupRef (snd kc) x = None" by (rule lookupRef_None)
    from "4.IH"(2)[OF none mem d2] none show ?thesis by simp
  qed
qed

lemma sound_cwd_directory: "sound s \<Longrightarrow> instanceofVDirectory (thisCwd s)"
proof -
  assume "sound s"
  then have "cwd s \<in> set (dirRefs (root s))" "distinct (refs (root s))"
    by (simp_all add: sound_def wellFormed_def)
  from lookupRef_dirRefs(1)[OF this] show ?thesis by (auto simp: thisCwd_def)
qed

end
